theory Spec2Isabelle
  imports Main
begin

section \<open>Python strings\<close>

text \<open>
  A Python \<open>str\<close> is a sequence of Unicode code points; it is modelled as a list of
  natural numbers, one per code point. ASCII literals of the source are written with
  \<open>lit\<close>. The character classes are those of CPython: \<open>str.strip()\<close> and the regex
  class \<open>\s\<close> use \<open>str.isspace\<close>, the regex class \<open>\d\<close> and \<open>int()\<close> use the decimal
  digits (category Nd), which come in runs of ten consecutive code points with the
  values 0 to 9 (table of Unicode 14.0.0).
\<close>

type_synonym pystr = "nat list"

definition lit :: "string \<Rightarrow> pystr" where
  "lit s = map of_char s"

abbreviation NL :: nat where
  "NL \<equiv> 10"

definition is_space :: "nat \<Rightarrow> bool" where
  "is_space c \<longleftrightarrow> c \<in> set [9, 10, 11, 12, 13, 28, 29, 30, 31, 32, 133, 160, 5760,
     8192, 8193, 8194, 8195, 8196, 8197, 8198, 8199, 8200, 8201, 8202,
     8232, 8233, 8239, 8287, 12288]"

definition nd_zeros :: "nat list" where
  "nd_zeros = [48, 1632, 1776, 1984, 2406, 2534, 2662, 2790, 2918, 3046, 3174, 3302,
     3430, 3558, 3664, 3792, 3872, 4160, 4240, 6112, 6160, 6470, 6608, 6784, 6800, 6992,
     7088, 7232, 7248, 42528, 43216, 43264, 43472, 43504, 43600, 44016, 65296, 66720,
     68912, 69734, 69872, 69942, 70096, 70384, 70736, 70864, 71248, 71360, 71472, 71904,
     72016, 72784, 73040, 73120, 92768, 92864, 93008, 120782, 120792, 120802, 120812,
     120822, 123200, 123632, 125264, 130032]"

definition digit_value :: "nat \<Rightarrow> nat option" where
  "digit_value c =
     (case filter (\<lambda>z. z \<le> c \<and> c < z + 10) nd_zeros of
        [] \<Rightarrow> None
      | z # _ \<Rightarrow> Some (c - z))"

definition is_digit :: "nat \<Rightarrow> bool" where
  "is_digit c \<longleftrightarrow> digit_value c \<noteq> None"

definition strip :: "pystr \<Rightarrow> pystr" where
  "strip s = rev (dropWhile is_space (rev (dropWhile is_space s)))"

text \<open>\<open>s.split('\n')\<close> and \<open>'\n'.join(xs)\<close>.\<close>

fun split_nl :: "pystr \<Rightarrow> pystr list" where
  "split_nl [] = [[]]"
| "split_nl (c # cs) =
     (if c = NL then [] # split_nl cs
      else (case split_nl cs of
              [] \<Rightarrow> [[c]]
            | l # ls \<Rightarrow> (c # l) # ls))"

fun join_nl :: "pystr list \<Rightarrow> pystr" where
  "join_nl [] = []"
| "join_nl [x] = x"
| "join_nl (x # y # ys) = x @ NL # join_nl (y # ys)"

section \<open>Subtitle entries\<close>

text \<open>
  An entry is the dictionary built by \<open>SrtParser.parse_srt\<close>, with the keys
  \<open>number\<close>, \<open>start_time\<close>, \<open>end_time\<close> and \<open>text\<close> (the field
  \<open>text_field\<close> here).
\<close>

record subtitle =
  number :: int
  start_time :: pystr
  end_time :: pystr
  text_field :: pystr

datatype py_error = ValueError | ZeroDivisionError

section \<open>SrtParser.create_batches\<close>

text \<open>
  \<open>range(0, stop, step)\<close> for a positive step, and the slice \<open>xs[i:j]\<close> for
  \<open>0 \<le> i \<le> j\<close>.
\<close>

definition range_step :: "nat \<Rightarrow> nat \<Rightarrow> nat list" where
  "range_step stop step = map (\<lambda>k. k * step) [0 ..< (stop + step - 1) div step]"

definition slice :: "'a list \<Rightarrow> nat \<Rightarrow> nat \<Rightarrow> 'a list" where
  "slice xs i j = take (j - i) (drop i xs)"

text \<open>
  \<open>[subtitles[i:i + batch_size] for i in range(0, len(subtitles), batch_size)]\<close>:
  \<open>range\<close> raises \<open>ValueError\<close> for a zero step and is empty for a negative one.
\<close>

definition create_batches :: "'a list \<Rightarrow> int \<Rightarrow> py_error + 'a list list" where
  "create_batches subtitles batch_size =
     (if batch_size = 0 then Inl ValueError
      else if batch_size < 0 then Inr []
      else Inr (map (\<lambda>i. slice subtitles i (i + nat batch_size))
                  (range_step (length subtitles) (nat batch_size))))"

section \<open>int() and str() on integers\<close>

text \<open>
  \<open>int(s)\<close> for a string without surrounding whitespace (the source strips the string
  before the call, or passes a run of digits): an optional sign, then decimal digits,
  where single underscores may stand between digits. \<open>None\<close> stands for the
  \<open>ValueError\<close> of the source. CPython refuses to convert a string with more than
  4300 digits (\<open>sys.int_info.default_max_str_digits\<close>, which the program leaves at its
  default): leading zeros count, underscores and the sign do not. In the other
  direction \<open>str(n)\<close>, which the f-strings of the source use, raises \<open>ValueError\<close>
  when the decimal numeral of \<open>n\<close> has more than 4300 digits.
\<close>

definition max_str_digits :: nat where
  "max_str_digits = 4300"

fun digits_loop :: "nat \<Rightarrow> pystr \<Rightarrow> nat option" where
  "digits_loop acc [] = Some acc"
| "digits_loop acc (c # cs) =
     (if c = 95 then
        (case cs of
           [] \<Rightarrow> None
         | d # ds \<Rightarrow>
             (case digit_value d of
                None \<Rightarrow> None
              | Some v \<Rightarrow> digits_loop (10 * acc + v) ds))
      else
        (case digit_value c of
           None \<Rightarrow> None
         | Some v \<Rightarrow> digits_loop (10 * acc + v) cs))"

definition py_nat :: "pystr \<Rightarrow> nat option" where
  "py_nat s =
     (if max_str_digits < length (filter (\<lambda>c. c \<noteq> 95) s) then None
      else
        (case s of
           [] \<Rightarrow> None
         | c # cs \<Rightarrow>
             (case digit_value c of
                None \<Rightarrow> None
              | Some v \<Rightarrow> digits_loop v cs)))"

definition py_int :: "pystr \<Rightarrow> int option" where
  "py_int s =
     (case s of
        [] \<Rightarrow> None
      | c # cs \<Rightarrow>
          if c = 45 then map_option (\<lambda>n. - int n) (py_nat cs)
          else if c = 43 then map_option int (py_nat cs)
          else map_option int (py_nat s))"

fun nat_digits :: "nat \<Rightarrow> pystr" where
  "nat_digits n = (if n < 10 then [48 + n] else nat_digits (n div 10) @ [48 + n mod 10])"

declare nat_digits.simps [simp del]

definition decimal :: "int \<Rightarrow> pystr" where
  "decimal n = (if n < 0 then 45 # nat_digits (nat (- n)) else nat_digits (nat n))"

definition str_int :: "int \<Rightarrow> pystr option" where
  "str_int n =
     (if max_str_digits < length (nat_digits (nat \<bar>n\<bar>)) then None else Some (decimal n))"

section \<open>SrtParser.parse_srt and SrtParser.format_srt\<close>

text \<open>
  The regular expression \<open>\n\s*\n\<close> tried at the start of a string: after the first
  newline the greedy \<open>\s*\<close> takes the whole run of whitespace and gives back until a
  newline follows, so the match ends with the last newline of that run. The result is
  the rest of the string after the match.
\<close>

definition match_blank :: "pystr \<Rightarrow> pystr option" where
  "match_blank s =
     (case s of
        [] \<Rightarrow> None
      | c # cs \<Rightarrow>
          if c = NL \<and> NL \<in> set (takeWhile is_space cs)
          then Some (drop (length (takeWhile is_space cs)
                           - length (takeWhile (\<lambda>x. x \<noteq> NL) (rev (takeWhile is_space cs)))) cs)
          else None)"

lemma match_blank_shorter: "match_blank s = Some r \<Longrightarrow> length r < length s"
  by (auto simp: match_blank_def split: list.splits if_splits)

text \<open>\<open>re.split(r'\n\s*\n', s)\<close>: the pieces between the leftmost matches.\<close>

function re_split_blank :: "pystr \<Rightarrow> pystr list" where
  "re_split_blank [] = [[]]"
| "re_split_blank (c # cs) =
     (case match_blank (c # cs) of
        Some r \<Rightarrow> [] # re_split_blank r
      | None \<Rightarrow>
          (case re_split_blank cs of
             [] \<Rightarrow> [[c]]
           | b # bs \<Rightarrow> (c # b) # bs))"
  by pat_completeness auto
termination
  by (relation "measure length") (auto dest: match_blank_shorter)

declare re_split_blank.simps(2) [simp del]

text \<open>
  The timestamp expression
  \<open>(\d{2}:\d{2}:\d{2},\d{3}) --> (\d{2}:\d{2}:\d{2},\d{3})\<close> has a fixed width: it is a
  sequence of character classes, and \<open>re.match\<close> tests a prefix of the line.
\<close>

datatype char_class = Digit | Lit nat

fun in_class :: "nat \<Rightarrow> char_class \<Rightarrow> bool" where
  "in_class c Digit = is_digit c"
| "in_class c (Lit k) = (c = k)"

definition time_pattern :: "char_class list" where
  "time_pattern = [Digit, Digit, Lit 58, Digit, Digit, Lit 58, Digit, Digit, Lit 44,
     Digit, Digit, Digit]"

definition timestamp_pattern :: "char_class list" where
  "timestamp_pattern = time_pattern @ map Lit (lit '' --> '') @ time_pattern"

definition re_match :: "char_class list \<Rightarrow> pystr \<Rightarrow> bool" where
  "re_match pat s = list_all2 in_class (take (length pat) s) pat"

text \<open>The body of the loop of \<open>parse_srt\<close>; \<open>None\<close> is a block skipped by \<open>continue\<close>.\<close>

definition parse_block :: "pystr \<Rightarrow> subtitle option" where
  "parse_block block =
     (if strip block = [] then None
      else
        let lines = split_nl (strip block) in
        if length lines < 3 then None
        else
          (case py_int (strip (lines ! 0)) of
             None \<Rightarrow> None
           | Some subtitle_number \<Rightarrow>
               if \<not> re_match timestamp_pattern (lines ! 1) then None
               else Some \<lparr>number = subtitle_number,
                          start_time = take 12 (lines ! 1),
                          end_time = take 12 (drop 17 (lines ! 1)),
                          text_field = join_nl (drop 2 lines)\<rparr>))"

definition parse_srt :: "pystr \<Rightarrow> subtitle list" where
  "parse_srt srt_content = List.map_filter parse_block (re_split_blank (strip srt_content))"

text \<open>
  The loop of \<open>format_srt\<close> builds the list \<open>srt_content\<close>, four strings for an entry;
  \<open>None\<close> is the \<open>ValueError\<close> of a number that \<open>str\<close> refuses.
\<close>

fun format_lines :: "subtitle list \<Rightarrow> pystr list option" where
  "format_lines [] = Some []"
| "format_lines (s # rest) =
     (case str_int (number s) of
        None \<Rightarrow> None
      | Some num \<Rightarrow>
          (case format_lines rest of
             None \<Rightarrow> None
           | Some srt_content \<Rightarrow>
               Some (num # (start_time s @ lit '' --> '' @ end_time s) # text_field s # []
                     # srt_content)))"

definition format_srt :: "subtitle list \<Rightarrow> py_error + pystr" where
  "format_srt subtitles =
     (case format_lines subtitles of
        None \<Rightarrow> Inl ValueError
      | Some srt_content \<Rightarrow> Inr (join_nl srt_content))"

subsection \<open>Entries that survive the round trip\<close>

text \<open>
  The entries for which serializing and parsing are inverse: the times have the form
  \<open>HH:MM:SS,mmm\<close>, the text is not empty, none of its lines is empty or made of
  whitespace only, it does not end with a whitespace character, and the decimal
  numeral of the number has at most 4300 digits. \<open>block_str\<close> is the block of an
  entry, \<open>block_lines\<close> its lines, and \<open>doc\<close> the blocks of a sequence with one empty
  line between them.
\<close>

definition wf_entry :: "subtitle \<Rightarrow> bool" where
  "wf_entry e \<longleftrightarrow>
     list_all2 in_class (start_time e) time_pattern
     \<and> list_all2 in_class (end_time e) time_pattern
     \<and> text_field e \<noteq> []
     \<and> list_all (\<lambda>line. strip line \<noteq> []) (split_nl (text_field e))
     \<and> \<not> is_space (last (text_field e))
     \<and> length (nat_digits (nat \<bar>number e\<bar>)) \<le> max_str_digits"

definition block_str :: "subtitle \<Rightarrow> pystr" where
  "block_str e =
     decimal (number e) @ NL # (start_time e @ lit '' --> '' @ end_time e) @ NL # text_field e"

fun doc :: "subtitle list \<Rightarrow> pystr" where
  "doc [] = []"
| "doc [e] = block_str e"
| "doc (e # e' # es) = block_str e @ NL # NL # doc (e' # es)"

definition block_lines :: "subtitle \<Rightarrow> pystr list" where
  "block_lines e =
     decimal (number e) # (start_time e @ lit '' --> '' @ end_time e) # split_nl (text_field e)"

section \<open>Reconciliation of a batch with the backend's response\<close>

text \<open>
  The marker expression \<open>\[(\d+)\]\<close> tried at the start of a string: the result is the
  run of digits and the rest of the string after the closing bracket.
\<close>

definition match_marker :: "pystr \<Rightarrow> (pystr \<times> pystr) option" where
  "match_marker s =
     (case s of
        [] \<Rightarrow> None
      | c # cs \<Rightarrow>
          if c = 91 \<and> takeWhile is_digit cs \<noteq> []
             \<and> take 1 (dropWhile is_digit cs) = [93]
          then Some (takeWhile is_digit cs, drop 1 (dropWhile is_digit cs))
          else None)"

lemma match_marker_shorter:
  assumes "match_marker s = Some (ds, r)"
  shows "length r < length s"
proof (cases s)
  case Nil
  with assms show ?thesis by (simp add: match_marker_def)
next
  case (Cons c cs)
  with assms have "r = drop 1 (dropWhile is_digit cs)"
    by (simp add: match_marker_def split: if_splits)
  moreover have "length (dropWhile is_digit cs) \<le> length cs"
    by (rule length_dropWhile_le)
  ultimately show ?thesis
    using Cons by simp
qed

text \<open>
  \<open>re.split(r'\[(\d+)\]', s)\<close>: the text before the first marker, then for every marker
  its digits and the text up to the next marker.
\<close>

function re_split_marker :: "pystr \<Rightarrow> pystr list" where
  "re_split_marker [] = [[]]"
| "re_split_marker (c # cs) =
     (case match_marker (c # cs) of
        Some (ds, r) \<Rightarrow> [] # ds # re_split_marker r
      | None \<Rightarrow>
          (case re_split_marker cs of
             [] \<Rightarrow> [[c]]
           | p # ps \<Rightarrow> (c # p) # ps))"
  by pat_completeness auto
termination
  by (relation "measure length") (auto dest: match_marker_shorter)

declare re_split_marker.simps(2) [simp del]

text \<open>
  The copy of the first entry of the batch that carries the number, with its text
  replaced: the inner \<open>for\<close> loop with its \<open>break\<close>.
\<close>

definition translate_entry :: "subtitle list \<Rightarrow> int \<Rightarrow> pystr \<Rightarrow> subtitle list" where
  "translate_entry current_subtitles subtitle_num content =
     (case find (\<lambda>s. number s = subtitle_num) current_subtitles of
        None \<Rightarrow> []
      | Some s \<Rightarrow> [s\<lparr>text_field := strip content\<rparr>])"

text \<open>
  The \<open>while\<close> loop of \<open>TranslationWorker._translate_subtitles\<close> over
  \<open>translated_parts\<close> from index 1 on, two elements at a time while two are left. The
  result is \<open>translated_batch\<close>; \<open>int\<close> is not guarded there, so a marker with more
  than 4300 digits ends the method with \<open>ValueError\<close>.
\<close>

fun parts_loop :: "subtitle list \<Rightarrow> pystr list \<Rightarrow> py_error + subtitle list" where
  "parts_loop current_subtitles (num # content # rest) =
     (case py_int num of
        None \<Rightarrow> Inl ValueError
      | Some subtitle_num \<Rightarrow>
          (case parts_loop current_subtitles rest of
             Inl e \<Rightarrow> Inl e
           | Inr translated \<Rightarrow>
               Inr (translate_entry current_subtitles subtitle_num content @ translated)))"
| "parts_loop current_subtitles rest = Inr []"

text \<open>
  The entries of the batch whose number is not among the translated ones are appended
  with their original text, and the list is sorted by number (\<open>list.sort\<close> is stable,
  as \<open>sort_key\<close> is).
\<close>

definition fill_and_sort :: "subtitle list \<Rightarrow> subtitle list \<Rightarrow> subtitle list" where
  "fill_and_sort current_subtitles translated_batch =
     (let batch_numbers = map number translated_batch
      in sort_key number
           (translated_batch @ filter (\<lambda>s. number s \<notin> set batch_numbers) current_subtitles))"

text \<open>Lines 348 to 377 of \<open>TranslationWorker._translate_subtitles\<close>.\<close>

definition reconcile :: "subtitle list \<Rightarrow> pystr \<Rightarrow> py_error + subtitle list" where
  "reconcile batch translated_text =
     (case parts_loop batch (drop 1 (re_split_marker translated_text)) of
        Inl e \<Rightarrow> Inl e
      | Inr translated_batch \<Rightarrow> Inr (fill_and_sort batch translated_batch))"

subsection \<open>The markers of a response\<close>

text \<open>
  The markers of a response, as the loop reads them off the result of \<open>re.split\<close>:
  the number of each marker with the text that follows it up to the next marker; and
  the translated entries that a list of markers produces from a batch.
\<close>

fun pair_up :: "pystr list \<Rightarrow> (pystr \<times> pystr) list" where
  "pair_up (num # content # rest) = (num, content) # pair_up rest"
| "pair_up rest = []"

definition markers :: "pystr \<Rightarrow> (int \<times> pystr) list" where
  "markers translated_text =
     List.map_filter (\<lambda>(num, content). map_option (\<lambda>n. (n, content)) (py_int num))
       (pair_up (drop 1 (re_split_marker translated_text)))"

definition translated_of :: "subtitle list \<Rightarrow> (int \<times> pystr) list \<Rightarrow> subtitle list" where
  "translated_of batch ms = concat (map (\<lambda>(n, content). translate_entry batch n content) ms)"

text \<open>
  The runs of digits of the markers, and the condition that \<open>int\<close> converts each of
  them: none has more than 4300 digits.
\<close>

definition marker_digits :: "pystr \<Rightarrow> pystr list" where
  "marker_digits translated_text = map fst (pair_up (drop 1 (re_split_marker translated_text)))"

definition short_markers :: "pystr \<Rightarrow> bool" where
  "short_markers translated_text =
     list_all (\<lambda>num. length num \<le> max_str_digits) (marker_digits translated_text)"

text \<open>An entry for the examples: a number and a text, with fixed times.\<close>

definition entry :: "int \<Rightarrow> string \<Rightarrow> subtitle" where
  "entry n t = \<lparr>number = n, start_time = lit ''00:00:01,000'',
                 end_time = lit ''00:00:02,000'', text_field = lit t\<rparr>"

subsection \<open>The variant in KoboldCppClient\<close>











section \<open>TranslationWorker._translate_subtitles\<close>

text \<open>
  The worker talks to its caller through signals and to the backend through
  \<open>client.translate_text\<close>. A run is modelled by the list of these events, in order.
  The backend is a function from the index of the call and the text sent to the pair
  \<open>(success, text)\<close>; the flag \<open>self.abort\<close>, which another thread sets, is given by
  the value read at the check that precedes each batch. The percentage of
  \<open>progress_updated\<close> is computed in floating point from the number of batches done
  and the number of batches, which the event records. An exception that nothing
  catches ends the run with \<open>Raised\<close>.
\<close>

datatype event =
    TranslateCall nat pystr
  | BatchCompleted nat "subtitle list"
  | ProgressUpdated nat nat
  | Sleep int
  | Finished bool pystr
  | Raised py_error

text \<open>
  The text sent for a batch: \<open>[number] text\<close> and an empty line for every entry;
  \<open>None\<close> is the \<open>ValueError\<close> of a number that \<open>str\<close> refuses.
\<close>

fun batch_text :: "subtitle list \<Rightarrow> pystr option" where
  "batch_text [] = Some []"
| "batch_text (s # rest) =
     (case str_int (number s) of
        None \<Rightarrow> None
      | Some num \<Rightarrow>
          (case batch_text rest of
             None \<Rightarrow> None
           | Some following \<Rightarrow>
               Some (lit ''['' @ num @ lit ''] '' @ text_field s @ [NL, NL] @ following)))"

fun batch_loop ::
  "(nat \<Rightarrow> pystr \<Rightarrow> bool \<times> pystr) \<Rightarrow> (nat \<Rightarrow> bool) \<Rightarrow> int \<Rightarrow> nat \<Rightarrow> nat
     \<Rightarrow> subtitle list list \<Rightarrow> subtitle list \<Rightarrow> event list" where
  "batch_loop client abort delay n_batches batch_index [] translated_subtitles =
     (case format_srt translated_subtitles of
        Inl e \<Rightarrow> [Raised e]
      | Inr translated_srt \<Rightarrow> [Finished True translated_srt])"
| "batch_loop client abort delay n_batches batch_index (batch # rest) translated_subtitles =
     (if abort batch_index then [Finished False (lit ''Translation aborted'')]
      else
        (case batch_text batch of
           None \<Rightarrow> [Raised ValueError]
         | Some text_sent \<Rightarrow>
             TranslateCall batch_index text_sent #
             (case client batch_index text_sent of
                (False, translated_text) \<Rightarrow>
                  [Finished False (lit ''Translation failed: '' @ translated_text)]
              | (True, translated_text) \<Rightarrow>
                  (case reconcile batch translated_text of
                     Inl e \<Rightarrow> [Raised e]
                   | Inr translated_batch \<Rightarrow>
                       BatchCompleted batch_index translated_batch #
                       ProgressUpdated (batch_index + 1) n_batches #
                       (if delay > 0 \<and> int batch_index < int n_batches - 1
                        then [Sleep delay] else []) @
                       batch_loop client abort delay n_batches (batch_index + 1) rest
                         (translated_subtitles @ translated_batch)))))"

definition translate_subtitles ::
  "(nat \<Rightarrow> pystr \<Rightarrow> bool \<times> pystr) \<Rightarrow> (nat \<Rightarrow> bool) \<Rightarrow> subtitle list \<Rightarrow> int \<Rightarrow> int
     \<Rightarrow> event list" where
  "translate_subtitles client abort subtitles batch_size delay =
     (case create_batches subtitles batch_size of
        Inl e \<Rightarrow> [Raised e]
      | Inr batches \<Rightarrow> batch_loop client abort delay (length batches) 0 batches [])"

text \<open>
  What a run shows to the outside: the indices of the batches sent to the backend, the
  indices of the batches reported by \<open>batch_completed\<close>, and the \<open>translation_finished\<close>
  notifications.
\<close>

fun sent_index :: "event \<Rightarrow> nat option" where
  "sent_index (TranslateCall i t) = Some i"
| "sent_index ev = None"

fun completed_index :: "event \<Rightarrow> nat option" where
  "completed_index (BatchCompleted i b) = Some i"
| "completed_index ev = None"

fun is_finished :: "event \<Rightarrow> bool" where
  "is_finished (Finished ok msg) = True"
| "is_finished ev = False"

definition sent_batches :: "event list \<Rightarrow> nat list" where
  "sent_batches tr = List.map_filter sent_index tr"

definition completed_batches :: "event list \<Rightarrow> nat list" where
  "completed_batches tr = List.map_filter completed_index tr"

text \<open>
  Backends and flags for the examples: a backend that fails with the message
  \<open>boom\<close>, a backend that answers with the text it was sent, a flag that is never
  set, and a flag that reads as set from the check of batch \<open>k\<close> on.
\<close>

definition failing_client :: "nat \<Rightarrow> pystr \<Rightarrow> bool \<times> pystr" where
  "failing_client i t = (False, lit ''boom'')"

definition echo_client :: "nat \<Rightarrow> pystr \<Rightarrow> bool \<times> pystr" where
  "echo_client i t = (True, t)"

definition never_abort :: "nat \<Rightarrow> bool" where
  "never_abort i = False"

definition abort_from :: "nat \<Rightarrow> nat \<Rightarrow> bool" where
  "abort_from k i = (k \<le> i)"

section \<open>Properties of create_batches\<close>

lemma concat_slices:
  "concat (map (\<lambda>i. slice xs i (i + n)) (map (\<lambda>k. k * n) [0 ..< m])) = take (m * n) xs"
proof (induction m)
  case 0
  show ?case by simp
next
  case (Suc m)
  have "take (m * n) xs @ take n (drop (m * n) xs) = take (m * n + n) xs"
    by (simp add: take_add)
  with Suc show ?case
    by (simp add: slice_def add.commute)
qed

lemma range_step_covers:
  fixes n len :: nat
  assumes "0 < n"
  shows "len \<le> ((len + n - 1) div n) * n"
proof -
  have "(len + n - 1) div n * n + (len + n - 1) mod n = len + n - 1"
    by simp
  moreover have "(len + n - 1) mod n < n"
    using assms by simp
  ultimately show ?thesis
    using assms by linarith
qed

lemma range_step_tight:
  fixes n len k :: nat
  assumes "0 < n" "Suc k < (len + n - 1) div n"
  shows "Suc k * n < len"
proof -
  have "Suc (Suc k) \<le> (len + n - 1) div n"
    using assms(2) by simp
  then have "Suc (Suc k) * n \<le> (len + n - 1) div n * n"
    by (rule mult_le_mono1)
  also have "\<dots> \<le> len + n - 1"
    by simp
  finally have "Suc k * n + n \<le> len + n - 1"
    by simp
  then show ?thesis
    using assms(1) by linarith
qed

lemma range_step_last:
  fixes n len k :: nat
  assumes "0 < n" "k < (len + n - 1) div n"
  shows "k * n < len"
proof -
  have "Suc k \<le> (len + n - 1) div n"
    using assms(2) by simp
  then have "Suc k * n \<le> (len + n - 1) div n * n"
    by (rule mult_le_mono1)
  also have "\<dots> \<le> len + n - 1"
    by simp
  finally have "k * n + n \<le> len + n - 1"
    by simp
  then show ?thesis
    using assms(1) by linarith
qed

lemma create_batches_pos:
  assumes "1 \<le> bs"
  shows "create_batches xs bs =
           Inr (map (\<lambda>k. slice xs (k * nat bs) (k * nat bs + nat bs))
                  [0 ..< (length xs + nat bs - 1) div nat bs])"
  using assms by (simp add: create_batches_def range_step_def comp_def)

text \<open>
  C7 (as amended). A zero batch size is rejected with \<open>ValueError\<close>; a negative batch
  size is not rejected: the call returns no batch at all. For every batch size of at
  least 1 the call returns batches whose concatenation is the input sequence, every
  batch but the last has exactly \<open>batch_size\<close> entries, and the last one holds the
  remainder, between 1 and \<open>batch_size\<close> entries.
\<close>

theorem create_batches_contract:
  "create_batches xs 0 = Inl ValueError
   \<and> (bs < 0 \<longrightarrow> create_batches xs bs = Inr [])
   \<and> (1 \<le> bs \<longrightarrow> (\<exists>bss. create_batches xs bs = Inr bss
      \<and> concat bss = xs
      \<and> (\<forall>k. Suc k < length bss \<longrightarrow> int (length (bss ! k)) = bs)
      \<and> (\<forall>k. Suc k = length bss \<longrightarrow>
            0 < length (bss ! k) \<and> int (length (bss ! k)) \<le> bs
            \<and> length (bss ! k) = length xs - k * nat bs)))"
proof (intro conjI impI)
  show "create_batches xs 0 = Inl ValueError"
    by (simp add: create_batches_def)
  show "bs < 0 \<Longrightarrow> create_batches xs bs = Inr []"
    by (simp add: create_batches_def)
  assume pos: "1 \<le> bs"
  define n where "n = nat bs"
  define m where "m = (length xs + n - 1) div n"
  define bss where "bss = map (\<lambda>k. slice xs (k * n) (k * n + n)) [0 ..< m]"
  have n: "0 < n" "int n = bs"
    using pos by (simp_all add: n_def)
  have eq: "create_batches xs bs = Inr bss"
    using create_batches_pos [OF pos, of xs] by (simp add: bss_def m_def n_def)
  have "concat bss = take (m * n) xs"
    using concat_slices [of xs n m] by (simp add: bss_def comp_def)
  moreover have "length xs \<le> m * n"
    unfolding m_def using n(1) by (rule range_step_covers)
  ultimately have cat: "concat bss = xs"
    by simp
  have len: "length bss = m"
    by (simp add: bss_def)
  have nth: "length (bss ! k) = min n (length xs - k * n)" if "k < m" for k
    using that by (simp add: bss_def slice_def min.commute)
  have full: "int (length (bss ! k)) = bs" if "Suc k < length bss" for k
  proof -
    have "Suc k * n < length xs"
      using n(1) that unfolding len m_def by (rule range_step_tight)
    then have "n \<le> length xs - k * n"
      by simp
    with nth [of k] that len n(2) show ?thesis
      by simp
  qed
  have rest: "0 < length (bss ! k) \<and> int (length (bss ! k)) \<le> bs
      \<and> length (bss ! k) = length xs - k * nat bs" if "Suc k = length bss" for k
  proof -
    have km: "k < m"
      using that len by simp
    then have lt: "k * n < length xs"
      using n(1) unfolding m_def by (intro range_step_last)
    have "length xs \<le> Suc k * n"
      using that len range_step_covers [OF n(1), of "length xs"] by (simp add: m_def)
    then have le: "length xs - k * n \<le> n"
      by simp
    have l: "length (bss ! k) = length xs - k * n"
      using nth [OF km] le by simp
    have "int (length (bss ! k)) \<le> int n"
      using l le by simp
    with l lt n(2) show ?thesis
      by (simp add: n_def)
  qed
  from eq cat full rest
  show "\<exists>bss. create_batches xs bs = Inr bss
      \<and> concat bss = xs
      \<and> (\<forall>k. Suc k < length bss \<longrightarrow> int (length (bss ! k)) = bs)
      \<and> (\<forall>k. Suc k = length bss \<longrightarrow>
            0 < length (bss ! k) \<and> int (length (bss ! k)) \<le> bs
            \<and> length (bss ! k) = length xs - k * nat bs)"
    by blast
qed

text \<open>
  On three entries and a batch size of 2 the batches are the first two entries and the
  third; with a batch size of -1 the same call returns the empty list.
\<close>

theorem create_batches_contract_witness:
  "(1::int) \<le> 2
   \<and> (\<exists>bss. create_batches [1::nat, 2, 3] 2 = Inr bss \<and> concat bss = [1, 2, 3]
         \<and> length bss = 2)
   \<and> (-1::int) < 0 \<and> create_batches [1::nat, 2, 3] (-1) = Inr []"
  using create_batches_contract [of "[1::nat, 2, 3]" 2]
    create_batches_contract [of "[1::nat, 2, 3]" "-1"]
  by (auto simp: create_batches_def range_step_def)

text \<open>
  A batch size below 1 is not always rejected: with a batch size of -2 the call returns
  normally, with no batch, and the three entries are in none.
\<close>

theorem create_batches_negative_counterexample:
  "create_batches [1::nat, 2, 3] (-2) = Inr []"
  by (simp add: create_batches_def)

section \<open>Properties of the reconciliation\<close>

subsection \<open>Digits and markers\<close>

lemma digit_value_ascii: "48 \<le> c \<Longrightarrow> c < 58 \<Longrightarrow> digit_value c = Some (c - 48)"
  by (simp add: digit_value_def nd_zeros_def)

lemma digit_value_small: "c < 48 \<Longrightarrow> digit_value c = None"
  by (simp add: digit_value_def nd_zeros_def)

lemma digit_value_gap: "58 \<le> c \<Longrightarrow> c < 1632 \<Longrightarrow> digit_value c = None"
  by (simp add: digit_value_def nd_zeros_def)

lemma is_digit_ascii: "c < 1632 \<Longrightarrow> is_digit c \<longleftrightarrow> 48 \<le> c \<and> c < 58"
  using digit_value_gap [of c] digit_value_small [of c] digit_value_ascii [of c]
  by (cases "c < 48"; cases "c < 58") (auto simp: is_digit_def)

lemma is_space_ascii: "c < 133 \<Longrightarrow> is_space c \<longleftrightarrow> (9 \<le> c \<and> c \<le> 13) \<or> (28 \<le> c \<and> c \<le> 32)"
  by (auto simp: is_space_def)

lemma digits_loop_digits:
  "\<forall>x\<in>set ds. is_digit x \<Longrightarrow> \<exists>n. digits_loop acc ds = Some n"
proof (induction ds arbitrary: acc)
  case Nil
  show ?case by simp
next
  case (Cons d ds)
  then obtain v where v: "digit_value d = Some v"
    by (auto simp: is_digit_def)
  then have "d \<noteq> 95"
    using digit_value_gap [of 95] by auto
  with Cons v show ?case by simp
qed

lemma digits_no_underscore: "\<forall>x\<in>set ds. is_digit x \<Longrightarrow> filter (\<lambda>c. c \<noteq> 95) ds = ds"
proof -
  have "\<not> is_digit 95"
    using digit_value_gap [of 95] by (simp add: is_digit_def)
  then show "\<forall>x\<in>set ds. is_digit x \<Longrightarrow> filter (\<lambda>c. c \<noteq> 95) ds = ds"
    by (auto simp: filter_id_conv)
qed

lemma py_int_of_digits:
  assumes "ds \<noteq> []" "\<forall>x\<in>set ds. is_digit x"
  shows "py_int ds = map_option int (py_nat ds)"
proof -
  obtain d ds' where ds: "ds = d # ds'"
    using assms(1) by (cases ds) auto
  then have "is_digit d"
    using assms(2) by simp
  then have "d \<noteq> 45" "d \<noteq> 43"
    using digit_value_small [of 45] digit_value_small [of 43] by (auto simp: is_digit_def)
  then show ?thesis
    by (simp add: py_int_def ds)
qed

lemma py_int_digits:
  assumes "ds \<noteq> []" "\<forall>x\<in>set ds. is_digit x"
  shows "py_int ds \<noteq> None \<longleftrightarrow> length ds \<le> max_str_digits"
proof -
  obtain d ds' where ds: "ds = d # ds'"
    using assms(1) by (cases ds) auto
  then obtain v where v: "digit_value d = Some v"
    using assms(2) by (auto simp: is_digit_def)
  obtain n where "digits_loop v ds' = Some n"
    using digits_loop_digits [of ds' v] assms(2) ds by auto
  then have "py_nat ds \<noteq> None \<longleftrightarrow> length ds \<le> max_str_digits"
    using v digits_no_underscore [OF assms(2)] by (auto simp: py_nat_def ds)
  then show ?thesis
    using py_int_of_digits [OF assms] by simp
qed

lemma re_split_marker_nonempty: "re_split_marker s \<noteq> []"
  by (induction s rule: re_split_marker.induct)
     (auto simp: re_split_marker.simps(2) split: option.splits list.splits)

lemma match_marker_digits:
  "match_marker s = Some (ds, r) \<Longrightarrow> ds \<noteq> [] \<and> (\<forall>x\<in>set ds. is_digit x)"
  by (auto simp: match_marker_def split: list.splits if_splits dest: set_takeWhileD)

lemma pair_up_Cons: "ps \<noteq> [] \<Longrightarrow> pair_up (d # ps) = (d, hd ps) # pair_up (drop 1 ps)"
  by (cases ps) auto

lemma re_split_marker_digits:
  "(d, c) \<in> set (pair_up (drop 1 (re_split_marker s))) \<Longrightarrow> d \<noteq> [] \<and> (\<forall>x\<in>set d. is_digit x)"
proof (induction s rule: re_split_marker.induct)
  case 1
  then show ?case by simp
next
  case (2 a cs)
  show ?case
  proof (cases "match_marker (a # cs)")
    case None
    with 2 show ?thesis
      by (auto simp: re_split_marker.simps(2) split: list.splits)
  next
    case (Some m)
    obtain ds r where m: "m = (ds, r)" by (cases m)
    have "pair_up (drop 1 (re_split_marker (a # cs)))
            = (ds, hd (re_split_marker r)) # pair_up (drop 1 (re_split_marker r))"
      using Some m re_split_marker_nonempty [of r]
      by (simp add: re_split_marker.simps(2) pair_up_Cons)
    with 2(2) [OF Some m [symmetric]] 2(3) Some m match_marker_digits [of "a # cs" ds r]
    show ?thesis by auto
  qed
qed

lemma parts_loop_eq:
  "\<forall>(d, c)\<in>set (pair_up ps). py_int d \<noteq> None \<Longrightarrow>
   parts_loop batch ps =
     Inr (translated_of batch
       (List.map_filter (\<lambda>(num, content). map_option (\<lambda>n. (n, content)) (py_int num)) (pair_up ps)))"
  by (induction batch ps rule: parts_loop.induct)
     (auto simp: translated_of_def List.map_filter_simps split: option.splits)


lemma short_markers_iff:
  "short_markers translated_text \<longleftrightarrow>
     (\<forall>(d, c)\<in>set (pair_up (drop 1 (re_split_marker translated_text))). py_int d \<noteq> None)"
proof -
  have "py_int d \<noteq> None \<longleftrightarrow> length d \<le> max_str_digits"
    if "(d, c) \<in> set (pair_up (drop 1 (re_split_marker translated_text)))" for d c
    using re_split_marker_digits [OF that] by (intro py_int_digits) auto
  then show ?thesis
    by (fastforce simp: short_markers_def marker_digits_def list_all_iff)
qed

lemma reconcile_eq:
  "short_markers translated_text \<Longrightarrow>
   reconcile batch translated_text =
     Inr (fill_and_sort batch (translated_of batch (markers translated_text)))"
  by (simp add: short_markers_iff reconcile_def markers_def parts_loop_eq)


lemma marker_ascii:
  "match_marker (c # cs) =
     (if c = 91 \<and> takeWhile is_digit cs \<noteq> [] \<and> take 1 (dropWhile is_digit cs) = [93]
      then Some (takeWhile is_digit cs, drop 1 (dropWhile is_digit cs)) else None)"
  by (simp add: match_marker_def)




lemmas eval_simps =
  lit_def entry_def reconcile_def re_split_marker.simps marker_ascii is_digit_ascii
  is_space_ascii digit_value_ascii py_int_def py_nat_def max_str_digits_def
  translate_entry_def strip_def fill_and_sort_def markers_def marker_digits_def
  short_markers_def List.map_filter_simps

subsection \<open>Translated entries, gap filling and sorting\<close>

lemma translate_entry_cases:
  "translate_entry batch n c =
     (case find (\<lambda>s. number s = n) batch of None \<Rightarrow> [] | Some b \<Rightarrow> [b\<lparr>text_field := strip c\<rparr>])"
  by (simp add: translate_entry_def)

lemma find_number_None: "find (\<lambda>s. number s = n) batch = None \<longleftrightarrow> n \<notin> number ` set batch"
  by (auto simp: find_None_iff)

lemma find_number_Some:
  "find (\<lambda>s. number s = n) batch = Some b \<Longrightarrow> b \<in> set batch \<and> number b = n"
  by (auto simp: find_Some_iff)


lemma number_translate_entry:
  "map number (translate_entry batch n c) = (if n \<in> number ` set batch then [n] else [])"
  by (auto simp: translate_entry_def find_number_None [symmetric]
      split: option.splits dest: find_number_Some)

lemma numbers_translated_of:
  "map number (translated_of batch ms) = filter (\<lambda>n. n \<in> number ` set batch) (map fst ms)"
proof (induction ms)
  case Nil
  show ?case by (simp add: translated_of_def)
next
  case (Cons m ms)
  obtain k c where m: "m = (k, c)" by (cases m)
  have "map number (translated_of batch (m # ms))
          = map number (translate_entry batch k c) @ map number (translated_of batch ms)"
    by (simp add: translated_of_def m)
  with Cons show ?case
    by (simp add: number_translate_entry m)
qed

lemma filter_translate_entry:
  "find (\<lambda>s. number s = n) batch = Some b \<Longrightarrow>
   filter (\<lambda>e. number e = n) (translate_entry batch k c)
     = (if k = n then [b\<lparr>text_field := strip c\<rparr>] else [])"
  by (auto simp: translate_entry_def split: option.splits dest: find_number_Some)

lemma filter_translated_of:
  "find (\<lambda>s. number s = n) batch = Some b \<Longrightarrow>
   filter (\<lambda>e. number e = n) (translated_of batch ms)
     = map (\<lambda>c. b\<lparr>text_field := strip c\<rparr>) (map snd (filter (\<lambda>m. fst m = n) ms))"
proof (induction ms)
  case Nil
  show ?case by (simp add: translated_of_def)
next
  case (Cons m ms)
  obtain k c where m: "m = (k, c)" by (cases m)
  have "translated_of batch (m # ms) = translate_entry batch k c @ translated_of batch ms"
    by (simp add: translated_of_def m)
  with Cons filter_translate_entry [OF Cons.prems, of k c] show ?case
    by (simp add: m)
qed


lemma length_fill_and_sort:
  "length (fill_and_sort batch tb)
     = length tb + length (filter (\<lambda>s. number s \<notin> number ` set tb) batch)"
  by (simp add: fill_and_sort_def)


lemma filter_fill_and_sort:
  "filter (\<lambda>e. number e = n) (fill_and_sort batch tb)
     = filter (\<lambda>e. number e = n) tb
       @ (if n \<in> number ` set tb then [] else filter (\<lambda>e. number e = n) batch)"
proof -
  have "filter (\<lambda>e. number e = n) (filter (\<lambda>s. number s \<notin> number ` set tb) batch)
          = (if n \<in> number ` set tb then [] else filter (\<lambda>e. number e = n) batch)"
    by (induction batch) auto
  then show ?thesis
    by (simp add: fill_and_sort_def sort_key_stable)
qed


lemma translated_numbers_subset:
  "number ` set (translated_of batch ms) \<subseteq> number ` set batch"
proof -
  have "set (map number (translated_of batch ms)) \<subseteq> number ` set batch"
    unfolding numbers_translated_of by auto
  then show ?thesis by simp
qed

text \<open>Counting: entries of the batch covered by translated numbers.\<close>

lemma length_split_by_numbers:
  "length batch = length (filter (\<lambda>s. number s \<in> N) batch)
                 + length (filter (\<lambda>s. number s \<notin> N) batch)"
  using sum_length_filter_compl [of "\<lambda>s. number s \<in> N" batch] by simp

lemma covered_card:
  assumes "N \<subseteq> number ` set batch"
  shows "card N \<le> length (filter (\<lambda>s. number s \<in> N) batch)"
proof -
  have "N = set (map number (filter (\<lambda>s. number s \<in> N) batch))"
    using assms by auto
  then have "card N = card (set (map number (filter (\<lambda>s. number s \<in> N) batch)))"
    by simp
  also have "\<dots> \<le> length (map number (filter (\<lambda>s. number s \<in> N) batch))"
    by (rule card_length)
  finally show ?thesis by simp
qed


lemma distinct_filter_eq_le_one:
  "distinct xs \<Longrightarrow> length (filter (\<lambda>k. k = n) xs) \<le> 1"
proof (induction xs)
  case Nil
  show ?case by simp
next
  case (Cons x xs)
  show ?case
  proof (cases "x = n")
    case True
    with Cons.prems have "filter (\<lambda>k. k = n) xs = []"
      by (auto simp: filter_empty_conv)
    with True show ?thesis by simp
  next
    case False
    with Cons show ?thesis by simp
  qed
qed

lemma covered_card_shared:
  assumes "N \<subseteq> number ` set batch" "n \<in> N" "1 < length (filter (\<lambda>s. number s = n) batch)"
  shows "card N < length (filter (\<lambda>s. number s \<in> N) batch)"
proof -
  let ?L = "map number (filter (\<lambda>s. number s \<in> N) batch)"
  have eq: "N = set ?L"
    using assms(1) by auto
  have "filter (\<lambda>k. k = n) ?L = map number (filter (\<lambda>s. number s = n) batch)"
    using assms(2) by (induction batch) auto
  then have "1 < length (filter (\<lambda>k. k = n) ?L)"
    using assms(3) by simp
  then have "\<not> distinct ?L"
    using distinct_filter_eq_le_one [of ?L n] by auto
  then have "card (set ?L) \<noteq> length ?L"
    using card_distinct by blast
  moreover have "card (set ?L) \<le> length ?L"
    by (rule card_length)
  ultimately show ?thesis
    using eq by simp
qed

subsection \<open>The claims on the reconciliation\<close>








text \<open>
  C3 (as amended). No occurrence of a marker is ignored: when no marker of the response
  has more than 4300 digits and a number of the batch stands in one or more markers,
  the output entries with that number are, in the order of the markers, one copy of
  the first entry of the batch with that number for each marker, with the trimmed
  content of that marker as text.
\<close>

theorem reconcile_every_marker:
  assumes "short_markers translated_text"
    and "find (\<lambda>s. number s = n) batch = Some b"
    and "n \<in> fst ` set (markers translated_text)"
  shows "\<exists>out. reconcile batch translated_text = Inr out
     \<and> filter (\<lambda>e. number e = n) out
         = map (\<lambda>content. b\<lparr>text_field := strip content\<rparr>)
             (map snd (filter (\<lambda>m. fst m = n) (markers translated_text)))"
proof -
  define tb where "tb = translated_of batch (markers translated_text)"
  have "n \<in> number ` set batch"
    using assms(2) by (auto dest: find_number_Some)
  with assms(3) have "n \<in> set (map number tb)"
    unfolding tb_def numbers_translated_of by auto
  then have "n \<in> number ` set tb"
    by simp
  then have "filter (\<lambda>e. number e = n) (fill_and_sort batch tb) = filter (\<lambda>e. number e = n) tb"
    by (simp add: filter_fill_and_sort)
  then show ?thesis
    using filter_translated_of [OF assms(2), of "markers translated_text"] assms(1)
    by (simp add: reconcile_eq tb_def)
qed

text \<open>
  Two markers for number 1 give two entries numbered 1.
\<close>

theorem reconcile_every_marker_witness:
  "short_markers (lit ''[1] x [2] y [1] z'')
   \<and> find (\<lambda>s. number s = 1) [entry 1 ''A'', entry 2 ''B''] = Some (entry 1 ''A'')
   \<and> 1 \<in> fst ` set (markers (lit ''[1] x [2] y [1] z''))
   \<and> (\<exists>out. reconcile [entry 1 ''A'', entry 2 ''B''] (lit ''[1] x [2] y [1] z'') = Inr out
        \<and> filter (\<lambda>e. number e = 1) out = [entry 1 ''x'', entry 1 ''z''])"
proof -
  have h0: "short_markers (lit ''[1] x [2] y [1] z'')"
    by (simp add: eval_simps)
  have h1: "find (\<lambda>s. number s = 1) [entry 1 ''A'', entry 2 ''B''] = Some (entry 1 ''A'')"
    by (simp add: eval_simps)
  have h2: "1 \<in> fst ` set (markers (lit ''[1] x [2] y [1] z''))"
    by (simp add: eval_simps)
  have v: "map (\<lambda>content. (entry 1 ''A'')\<lparr>text_field := strip content\<rparr>)
             (map snd (filter (\<lambda>m. fst m = 1) (markers (lit ''[1] x [2] y [1] z''))))
           = [entry 1 ''x'', entry 1 ''z'']"
    by (simp add: eval_simps)
  from reconcile_every_marker [OF h0 h1 h2] v h0 h1 h2 show ?thesis
    by simp
qed

text \<open>
  The later occurrence of marker 1 is not ignored: its content is the text of a second
  output entry numbered 1, and the output has three entries for a batch of two.
\<close>

theorem reconcile_duplicate_marker_counterexample:
  "reconcile [entry 1 ''A'', entry 2 ''B''] (lit ''[1] x [2] y [1] z'')
     = Inr [entry 1 ''x'', entry 1 ''z'', entry 2 ''y'']"
  by (simp add: eval_simps)

text \<open>
  C9 (as amended). If two entries of the batch share a number, the response has exactly
  one marker for that number, no number of the batch stands in more than one marker,
  and no marker has more than 4300 digits, then the output has strictly fewer entries
  than the batch: the only output entry with the shared number is the copy of the
  first entry of the batch with that number, with the trimmed content of the marker,
  and gap filling adds no other.
\<close>

theorem reconcile_shared_number:
  assumes "short_markers translated_text"
    and "1 < length (filter (\<lambda>s. number s = n) batch)"
    and "length (filter (\<lambda>m. fst m = n) (markers translated_text)) = 1"
    and "distinct (filter (\<lambda>k. k \<in> number ` set batch) (map fst (markers translated_text)))"
  shows "\<exists>out b content. reconcile batch translated_text = Inr out
     \<and> length out < length batch
     \<and> find (\<lambda>s. number s = n) batch = Some b
     \<and> filter (\<lambda>m. fst m = n) (markers translated_text) = [(n, content)]
     \<and> filter (\<lambda>e. number e = n) out = [b\<lparr>text_field := strip content\<rparr>]"
proof -
  define tb where "tb = translated_of batch (markers translated_text)"
  define out where "out = fill_and_sort batch tb"
  have eq: "reconcile batch translated_text = Inr out"
    using assms(1) by (simp add: reconcile_eq out_def tb_def)
  have "filter (\<lambda>s. number s = n) batch \<noteq> []"
    using assms(2) by auto
  then have inb: "n \<in> number ` set batch"
    by (auto simp: filter_empty_conv)
  then obtain b where b: "find (\<lambda>s. number s = n) batch = Some b"
    using find_number_None [of n batch] by (cases "find (\<lambda>s. number s = n) batch") auto
  obtain m where m: "filter (\<lambda>m. fst m = n) (markers translated_text) = [m]"
    using assms(3) by (cases "filter (\<lambda>m. fst m = n) (markers translated_text)") auto
  then have "m \<in> set (filter (\<lambda>m. fst m = n) (markers translated_text))"
    by simp
  then have mn: "fst m = n" "m \<in> set (markers translated_text)"
    by auto
  obtain content where c: "m = (n, content)"
    using mn(1) by (cases m) auto
  have "n \<in> set (map number tb)"
    unfolding tb_def numbers_translated_of using inb mn by force
  then have ntb: "n \<in> number ` set tb"
    by simp
  have sub: "number ` set tb \<subseteq> number ` set batch"
    unfolding tb_def by (rule translated_numbers_subset)
  have "distinct (map number tb)"
    using assms(4) by (simp add: tb_def numbers_translated_of)
  then have "card (set (map number tb)) = length (map number tb)"
    by (rule distinct_card)
  then have "card (number ` set tb) = length tb"
    by simp
  moreover have "card (number ` set tb) < length (filter (\<lambda>s. number s \<in> number ` set tb) batch)"
    using sub ntb assms(2) by (rule covered_card_shared)
  ultimately have len: "length out < length batch"
    using length_split_by_numbers [of batch "number ` set tb"]
    by (simp add: out_def length_fill_and_sort)
  have "filter (\<lambda>e. number e = n) out = filter (\<lambda>e. number e = n) tb"
    using ntb by (simp add: out_def filter_fill_and_sort)
  also have "\<dots> = [b\<lparr>text_field := strip content\<rparr>]"
    using filter_translated_of [OF b, of "markers translated_text"] m c by (simp add: tb_def)
  finally show ?thesis
    using eq len b m c by blast
qed

text \<open>
  Two entries numbered 1 and one marker for 1 give a single entry.
\<close>

theorem reconcile_shared_number_witness:
  "short_markers (lit ''[1] x'')
   \<and> 1 < length (filter (\<lambda>s. number s = 1) [entry 1 ''A'', entry 1 ''B''])
   \<and> length (filter (\<lambda>m. fst m = 1) (markers (lit ''[1] x''))) = 1
   \<and> distinct (filter (\<lambda>k. k \<in> number ` set [entry 1 ''A'', entry 1 ''B''])
        (map fst (markers (lit ''[1] x''))))
   \<and> (\<exists>out b content. reconcile [entry 1 ''A'', entry 1 ''B''] (lit ''[1] x'') = Inr out
     \<and> length out < length [entry 1 ''A'', entry 1 ''B'']
     \<and> find (\<lambda>s. number s = 1) [entry 1 ''A'', entry 1 ''B''] = Some b
     \<and> filter (\<lambda>m. fst m = 1) (markers (lit ''[1] x'')) = [(1, content)]
     \<and> filter (\<lambda>e. number e = 1) out = [b\<lparr>text_field := strip content\<rparr>])
   \<and> reconcile [entry 1 ''A'', entry 1 ''B''] (lit ''[1] x'') = Inr [entry 1 ''x'']"
proof -
  have h0: "short_markers (lit ''[1] x'')"
    by (simp add: eval_simps)
  have h1: "1 < length (filter (\<lambda>s. number s = 1) [entry 1 ''A'', entry 1 ''B''])"
    by (simp add: eval_simps)
  have h2: "length (filter (\<lambda>m. fst m = 1) (markers (lit ''[1] x''))) = 1"
    by (simp add: eval_simps)
  have h3: "distinct (filter (\<lambda>k. k \<in> number ` set [entry 1 ''A'', entry 1 ''B''])
        (map fst (markers (lit ''[1] x''))))"
    by (simp add: eval_simps)
  have v: "reconcile [entry 1 ''A'', entry 1 ''B''] (lit ''[1] x'') = Inr [entry 1 ''x'']"
    by (simp add: eval_simps)
  from reconcile_shared_number [OF h0 h1 h2 h3] h0 h1 h2 h3 v show ?thesis
    by blast
qed

text \<open>
  Without the condition on the other markers the output need not be shorter: here the
  marker of number 2 is repeated, and the output has three entries for a batch of
  three.
\<close>

theorem reconcile_shared_number_counterexample:
  "reconcile [entry 1 ''A'', entry 1 ''B'', entry 2 ''C''] (lit ''[1] x[2] y[2] z'')
     = Inr [entry 1 ''x'', entry 2 ''y'', entry 2 ''z'']
   \<and> length (filter (\<lambda>m. fst m = 1) (markers (lit ''[1] x[2] y[2] z''))) = 1
   \<and> \<not> length [entry 1 ''x'', entry 2 ''y'', entry 2 ''z'']
         < length [entry 1 ''A'', entry 1 ''B'', entry 2 ''C'']"
  by (simp add: eval_simps)

section \<open>Properties of a run\<close>

lemma batch_loop_abort:
  "abort i \<Longrightarrow>
   batch_loop client abort delay n i (batch # rest) acc = [Finished False (lit ''Translation aborted'')]"
  by simp

lemma batch_loop_unprintable:
  "\<not> abort i \<Longrightarrow> batch_text batch = None \<Longrightarrow>
   batch_loop client abort delay n i (batch # rest) acc = [Raised ValueError]"
  by simp

lemma batch_loop_fail:
  "\<not> abort i \<Longrightarrow> batch_text batch = Some sent \<Longrightarrow> client i sent = (False, msg) \<Longrightarrow>
   batch_loop client abort delay n i (batch # rest) acc =
     [TranslateCall i sent, Finished False (lit ''Translation failed: '' @ msg)]"
  by simp

lemma batch_loop_raise:
  "\<not> abort i \<Longrightarrow> batch_text batch = Some sent \<Longrightarrow> client i sent = (True, tt) \<Longrightarrow>
   reconcile batch tt = Inl e \<Longrightarrow>
   batch_loop client abort delay n i (batch # rest) acc = [TranslateCall i sent, Raised e]"
  by simp

lemma batch_loop_step:
  "\<not> abort i \<Longrightarrow> batch_text batch = Some sent \<Longrightarrow> client i sent = (True, tt) \<Longrightarrow>
   reconcile batch tt = Inr tb \<Longrightarrow>
   batch_loop client abort delay n i (batch # rest) acc =
     TranslateCall i sent
     # BatchCompleted i tb
     # ProgressUpdated (i + 1) n
     # (if delay > 0 \<and> int i < int n - 1 then [Sleep delay] else [])
     @ batch_loop client abort delay n (i + 1) rest (acc @ tb)"
  by simp

declare batch_loop.simps(2) [simp del]



lemma batch_loop_Cons_cases:
  fixes client abort delay n i batch rest acc
  defines "tr \<equiv> batch_loop client abort delay n i (batch # rest) acc"
  obtains
    (aborted) "abort i" "tr = [Finished False (lit ''Translation aborted'')]"
  | (unprintable) "\<not> abort i" "tr = [Raised ValueError]"
  | (failed) sent msg where "\<not> abort i" "client i sent = (False, msg)"
      "tr = [TranslateCall i sent, Finished False (lit ''Translation failed: '' @ msg)]"
  | (raised) sent e where "\<not> abort i" "fst (client i sent)" "tr = [TranslateCall i sent, Raised e]"
  | (completed) sent tt front acc' where "\<not> abort i" "client i sent = (True, tt)"
      "tr = front @ batch_loop client abort delay n (i + 1) rest acc'"
      "front = TranslateCall i sent # tl front"
      "\<forall>k v. TranslateCall k v \<in> set (tl front) \<longrightarrow> False"
      "sent_batches front = [i]" "completed_batches front = [i]"
      "filter is_finished front = []"
proof (cases "abort i")
  case True
  then show ?thesis
    using aborted by (simp add: tr_def batch_loop_abort)
next
  case na: False
  show ?thesis
  proof (cases "batch_text batch")
    case None
    with na show ?thesis
      using unprintable by (simp add: tr_def batch_loop_unprintable)
  next
    case (Some sent)
    obtain ok tt where c: "client i sent = (ok, tt)"
      by (cases "client i sent")
    show ?thesis
    proof (cases ok)
      case False
      with na c Some show ?thesis
        using failed by (simp add: tr_def batch_loop_fail)
    next
      case True
      then have c': "client i sent = (True, tt)"
        using c by simp
      show ?thesis
      proof (cases "reconcile batch tt")
        case (Inl e)
        have "tr = [TranslateCall i sent, Raised e]"
          using na Some c' Inl by (simp add: tr_def batch_loop_raise)
        moreover have "fst (client i sent)"
          using c' by simp
        ultimately show ?thesis
          using raised na by blast
      next
        case (Inr tb)
        let ?front = "TranslateCall i sent # BatchCompleted i tb
           # ProgressUpdated (i + 1) n
           # (if delay > 0 \<and> int i < int n - 1 then [Sleep delay] else [])"
        have eq: "tr = ?front @ batch_loop client abort delay n (i + 1) rest (acc @ tb)"
          using na Some c' Inr by (simp add: tr_def batch_loop_step)
        have f: "?front = TranslateCall i sent # tl ?front"
          "\<forall>k v. TranslateCall k v \<in> set (tl ?front) \<longrightarrow> False"
          by simp_all
        have s: "sent_batches ?front = [i]" "completed_batches ?front = [i]"
          "filter is_finished ?front = []"
          by (simp_all add: sent_batches_def completed_batches_def List.map_filter_simps)
        show ?thesis
          by (rule completed [OF na c' eq f s])
      qed
    qed
  qed
qed

lemma sent_lower:
  "TranslateCall j u \<in> set (batch_loop client abort delay n i bs acc) \<Longrightarrow> i \<le> j"
proof (induction bs arbitrary: i acc)
  case Nil
  then show ?case by (simp split: sum.splits)
next
  case (Cons batch rest)
  show ?case
  proof (cases rule: batch_loop_Cons_cases [where abort = abort and i = i and client = client
        and batch = batch and delay = delay and n = n and rest = rest and acc = acc])
    case aborted
    with Cons.prems show ?thesis by simp
  next
    case unprintable
    with Cons.prems show ?thesis by simp
  next
    case (failed sent msg)
    with Cons.prems show ?thesis by simp
  next
    case (raised sent e)
    with Cons.prems show ?thesis by simp
  next
    case (completed sent tt front acc')
    from Cons.prems completed(3)
    have "TranslateCall j u \<in> set front
        \<or> TranslateCall j u \<in> set (batch_loop client abort delay n (i + 1) rest acc')"
      by auto
    then show ?thesis
    proof
      assume "TranslateCall j u \<in> set front"
      then have "TranslateCall j u \<in> set (TranslateCall i sent # tl front)"
        using completed(4) by simp
      with completed(5) show ?thesis by auto
    next
      assume "TranslateCall j u \<in> set (batch_loop client abort delay n (i + 1) rest acc')"
      from Cons.IH [OF this] show ?thesis by simp
    qed
  qed
qed

lemma batch_loop_failure:
  assumes "TranslateCall j u \<in> set (batch_loop client abort delay n i bs acc)"
    and "client j u = (False, msg)"
  shows "\<exists>pre. batch_loop client abort delay n i bs acc
           = pre @ [TranslateCall j u, Finished False (lit ''Translation failed: '' @ msg)]
         \<and> (\<forall>k v. TranslateCall k v \<in> set pre \<longrightarrow> k < j)"
  using assms
proof (induction bs arbitrary: i acc)
  case Nil
  then show ?case by (simp split: sum.splits)
next
  case (Cons batch rest)
  show ?case
  proof (cases rule: batch_loop_Cons_cases [where abort = abort and i = i and client = client
        and batch = batch and delay = delay and n = n and rest = rest and acc = acc])
    case aborted
    with Cons.prems show ?thesis by simp
  next
    case unprintable
    with Cons.prems show ?thesis by simp
  next
    case (failed sent m)
    with Cons.prems(1) have "j = i" "u = sent"
      by simp_all
    with Cons.prems(2) failed(2) have "m = msg" by simp
    with failed(3) \<open>j = i\<close> \<open>u = sent\<close> show ?thesis
      by simp
  next
    case (raised sent e)
    with Cons.prems(1) have "j = i" "u = sent"
      by simp_all
    with Cons.prems(2) raised(2) show ?thesis by simp
  next
    case (completed sent tt front acc')
    let ?rest = "batch_loop client abort delay n (i + 1) rest acc'"
    have "\<not> (j = i \<and> u = sent)"
      using Cons.prems(2) completed(2) by auto
    moreover from Cons.prems(1) completed(3)
    have "TranslateCall j u \<in> set (TranslateCall i sent # tl front) \<or> TranslateCall j u \<in> set ?rest"
      using completed(4) by auto
    ultimately have mem: "TranslateCall j u \<in> set ?rest"
      using completed(5) by auto
    from Cons.IH [OF mem Cons.prems(2)] obtain pre where
      pre: "?rest = pre @ [TranslateCall j u, Finished False (lit ''Translation failed: '' @ msg)]"
      and low: "\<forall>k v. TranslateCall k v \<in> set pre \<longrightarrow> k < j"
      by blast
    have "i + 1 \<le> j"
      using mem by (rule sent_lower)
    have "k < j" if "TranslateCall k v \<in> set (front @ pre)" for k v
    proof -
      from that have "TranslateCall k v \<in> set (TranslateCall i sent # tl front)
          \<or> TranslateCall k v \<in> set pre"
        using completed(4) by auto
      with completed(5) low \<open>i + 1 \<le> j\<close> show ?thesis
        by auto
    qed
    moreover have "batch_loop client abort delay n i (batch # rest) acc
        = (front @ pre) @ [TranslateCall j u, Finished False (lit ''Translation failed: '' @ msg)]"
      using completed(3) pre by simp
    ultimately show ?thesis
      by blast
  qed
qed

lemmas run_simps =
  batch_loop.simps translate_subtitles_def create_batches_def range_step_def slice_def
  batch_text.simps format_srt_def format_lines.simps str_int_def decimal_def
  nat_digits.simps failing_client_def echo_client_def never_abort_def
  abort_from_def sent_batches_def completed_batches_def List.map_filter_simps

text \<open>
  C6 (as amended). When the backend call for a batch returns non-success, the run ends
  at once: the next event is the \<open>translation_finished\<close> notification with the flag
  \<open>False\<close>, nothing follows it, and no call before it was for the same or a later
  batch, so there is no retry and no further batch. The message of the notification
  is the backend's message after the prefix \<open>Translation failed: \<close>.
\<close>

theorem failure_ends_job:
  assumes "TranslateCall j u \<in> set (translate_subtitles client abort subtitles batch_size delay)"
    and "client j u = (False, msg)"
  shows "\<exists>pre. translate_subtitles client abort subtitles batch_size delay
           = pre @ [TranslateCall j u, Finished False (lit ''Translation failed: '' @ msg)]
         \<and> (\<forall>k v. TranslateCall k v \<in> set pre \<longrightarrow> k < j)"
proof (cases "create_batches subtitles batch_size")
  case (Inl e)
  with assms(1) show ?thesis
    by (simp add: translate_subtitles_def)
next
  case (Inr batches)
  with assms(1) have "TranslateCall j u
      \<in> set (batch_loop client abort delay (length batches) 0 batches [])"
    by (simp add: translate_subtitles_def)
  from batch_loop_failure [OF this assms(2)] Inr show ?thesis
    by (simp add: translate_subtitles_def)
qed

text \<open>
  A job of one batch whose call fails with the message \<open>boom\<close>.
\<close>

theorem failure_ends_job_witness:
  "TranslateCall 0 (lit ''[1] Hello'' @ [NL, NL])
     \<in> set (translate_subtitles failing_client never_abort [entry 1 ''Hello''] 1 0)
   \<and> failing_client 0 (lit ''[1] Hello'' @ [NL, NL]) = (False, lit ''boom'')
   \<and> (\<exists>pre. translate_subtitles failing_client never_abort [entry 1 ''Hello''] 1 0
           = pre @ [TranslateCall 0 (lit ''[1] Hello'' @ [NL, NL]),
                    Finished False (lit ''Translation failed: '' @ lit ''boom'')])"
proof -
  have h1: "TranslateCall 0 (lit ''[1] Hello'' @ [NL, NL])
     \<in> set (translate_subtitles failing_client never_abort [entry 1 ''Hello''] 1 0)"
    by (simp add: run_simps eval_simps)
  have h2: "failing_client 0 (lit ''[1] Hello'' @ [NL, NL]) = (False, lit ''boom'')"
    by (simp add: failing_client_def)
  from failure_ends_job [OF h1 h2] h1 h2 show ?thesis
    by blast
qed

text \<open>
  The message delivered is not the backend's message unaltered: for the backend message
  \<open>boom\<close> the notification carries \<open>Translation failed: boom\<close>.
\<close>

theorem failure_message_counterexample:
  "translate_subtitles failing_client never_abort [entry 1 ''Hello''] 1 0
     = [TranslateCall 0 (lit ''[1] Hello'' @ [NL, NL]),
        Finished False (lit ''Translation failed: boom'')]
   \<and> lit ''Translation failed: boom'' \<noteq> lit ''boom''"
  by (simp add: run_simps eval_simps)






section \<open>Properties of the fallback on lines\<close>








text \<open>
  \<open>TranslationWorker._translate_subtitles\<close>, the method that runs, has no such
  fallback: on a response without markers every entry keeps its original text.
\<close>

lemma worker_has_no_fallback:
  "reconcile [entry 1 ''Hello''] (lit ''Bonjour'') = Inr [entry 1 ''Hello'']"
  by (simp add: eval_simps)

section \<open>Properties of parse_srt and format_srt\<close>

subsection \<open>Characters and integers\<close>

lemma digit_value_gap2: "4250 \<le> c \<Longrightarrow> c < 6112 \<Longrightarrow> digit_value c = None"
  by (simp add: digit_value_def nd_zeros_def)

lemma digit_value_gap3: "7258 \<le> c \<Longrightarrow> c < 42528 \<Longrightarrow> digit_value c = None"
  by (simp add: digit_value_def nd_zeros_def)

lemma space_ranges:
  "is_space c \<Longrightarrow>
   c < 48 \<or> (58 \<le> c \<and> c < 1632) \<or> (4250 \<le> c \<and> c < 6112) \<or> (7258 \<le> c \<and> c < 42528)"
  unfolding is_space_def by (elim disjE | simp)+

lemma space_not_digit: "is_space c \<Longrightarrow> digit_value c = None"
  using space_ranges [of c] digit_value_small [of c] digit_value_gap [of c]
    digit_value_gap2 [of c] digit_value_gap3 [of c]
  by blast

lemma digit_not_space: "is_digit c \<Longrightarrow> \<not> is_space c"
  using space_not_digit by (auto simp: is_digit_def)

lemma is_space_NL: "is_space NL"
  by (simp add: is_space_def)

lemma nat_digits_chars: "c \<in> set (nat_digits n) \<Longrightarrow> 48 \<le> c \<and> c < 58"
proof (induction n rule: nat_digits.induct)
  case (1 n)
  show ?case
  proof (cases "n < 10")
    case True
    with 1(2) show ?thesis
      by (simp add: nat_digits.simps [of n])
  next
    case False
    with 1(2) have "c \<in> set (nat_digits (n div 10)) \<or> c = 48 + n mod 10"
      by (auto simp: nat_digits.simps [of n])
    then show ?thesis
    proof
      assume "c \<in> set (nat_digits (n div 10))"
      with 1(1) False show ?thesis by simp
    next
      assume c: "c = 48 + n mod 10"
      have "n mod 10 < 10" by simp
      with c show ?thesis by linarith
    qed
  qed
qed

lemma nat_digits_nonempty: "nat_digits n \<noteq> []"
  by (simp add: nat_digits.simps [of n])

lemma digits_loop_ascii:
  "\<forall>c\<in>set ds. 48 \<le> c \<and> c < 58 \<Longrightarrow>
   digits_loop acc ds = Some (foldl (\<lambda>a c. 10 * a + (c - 48)) acc ds)"
  by (induction ds arbitrary: acc) (auto simp: digit_value_ascii)

lemma nat_digits_value: "foldl (\<lambda>a c. 10 * a + (c - 48)) 0 (nat_digits n) = n"
proof (induction n rule: nat_digits.induct)
  case (1 n)
  show ?case
  proof (cases "n < 10")
    case True
    then show ?thesis by (simp add: nat_digits.simps [of n])
  next
    case False
    with 1 show ?thesis
      by (simp add: nat_digits.simps [of n])
  qed
qed

lemma ascii_digits_no_underscore:
  "\<forall>c\<in>set ds. 48 \<le> c \<and> c < (58::nat) \<Longrightarrow> filter (\<lambda>c. c \<noteq> 95) ds = ds"
  by (auto simp: filter_id_conv)

lemma py_nat_nat_digits:
  assumes "length (nat_digits n) \<le> max_str_digits"
  shows "py_nat (nat_digits n) = Some n"
proof -
  obtain d ds where ds: "nat_digits n = d # ds"
    using nat_digits_nonempty [of n] by (cases "nat_digits n") auto
  have all: "\<forall>c\<in>set (d # ds). 48 \<le> c \<and> c < 58"
    using nat_digits_chars [of _ n] ds by auto
  then have "digits_loop 0 (d # ds) = Some (foldl (\<lambda>a c. 10 * a + (c - 48)) 0 (d # ds))"
    by (rule digits_loop_ascii)
  moreover have "digits_loop 0 (d # ds) = digits_loop (d - 48) ds"
    using all by (simp add: digit_value_ascii)
  moreover have "py_nat (d # ds) = digits_loop (d - 48) ds"
    using all assms ascii_digits_no_underscore [OF all] ds
    by (simp add: py_nat_def digit_value_ascii)
  ultimately show ?thesis
    using nat_digits_value [of n] ds by simp
qed

lemma py_int_decimal:
  assumes "str_int n = Some s"
  shows "py_int s = Some n"
proof -
  from assms have len: "length (nat_digits (nat \<bar>n\<bar>)) \<le> max_str_digits" and s: "s = decimal n"
    by (auto simp: str_int_def split: if_splits)
  show ?thesis
  proof (cases "n < 0")
    case True
    then have "nat \<bar>n\<bar> = nat (- n)" by simp
    with len True show ?thesis
      by (simp add: s decimal_def py_int_def py_nat_nat_digits)
  next
    case False
    then have abs: "nat \<bar>n\<bar> = nat n" by simp
    obtain d ds where ds: "nat_digits (nat n) = d # ds"
      using nat_digits_nonempty [of "nat n"] by (cases "nat_digits (nat n)") auto
    then have "48 \<le> d"
      using nat_digits_chars [of d "nat n"] by simp
    then have "d \<noteq> 45" "d \<noteq> 43" by auto
    with False ds py_nat_nat_digits [of "nat n"] len abs show ?thesis
      by (simp add: s decimal_def py_int_def)
  qed
qed

lemma decimal_chars: "c \<in> set (decimal n) \<Longrightarrow> c = 45 \<or> (48 \<le> c \<and> c < 58)"
  by (auto simp: decimal_def dest: nat_digits_chars split: if_splits)

lemma decimal_nonempty: "decimal n \<noteq> []"
  by (simp add: decimal_def nat_digits_nonempty)

lemma decimal_no_space: "c \<in> set (decimal n) \<Longrightarrow> \<not> is_space c"
  using decimal_chars [of c n] by (auto simp: is_space_def)

lemma decimal_no_NL: "NL \<notin> set (decimal n)"
  using decimal_chars [of NL n] by auto

subsection \<open>strip\<close>

lemma strip_id:
  assumes "s \<noteq> []" "\<not> is_space (hd s)" "\<not> is_space (last s)"
  shows "strip s = s"
proof -
  have "dropWhile is_space s = s"
    using assms(1,2) by (cases s) auto
  moreover have "dropWhile is_space (rev s) = rev s"
    using assms(1,3) by (cases "rev s") (auto simp: last_rev [symmetric] hd_rev)
  ultimately show ?thesis
    by (simp add: strip_def)
qed

lemma strip_trailing_NL:
  assumes "s \<noteq> []" "\<not> is_space (hd s)" "\<not> is_space (last s)"
  shows "strip (s @ [NL]) = s"
proof -
  have "dropWhile is_space (s @ [NL]) = s @ [NL]"
    using assms(1,2) by (cases s) auto
  moreover have "dropWhile is_space (rev s) = rev s"
    using assms(1,3) by (cases "rev s") (auto simp: hd_rev)
  ultimately show ?thesis
    by (simp add: strip_def is_space_NL)
qed

lemma strip_nonempty_has_char: "strip l \<noteq> [] \<Longrightarrow> \<exists>x\<in>set l. \<not> is_space x"
proof (rule ccontr)
  assume ne: "strip l \<noteq> []" and "\<not> (\<exists>x\<in>set l. \<not> is_space x)"
  then have "\<forall>x\<in>set l. is_space x" by blast
  then have "dropWhile is_space l = []" by simp
  with ne show False by (simp add: strip_def)
qed

subsection \<open>split and join\<close>

lemma split_nl_nonempty: "split_nl s \<noteq> []"
  by (induction s) (auto split: list.splits)

lemma split_nl_line: "NL \<notin> set l \<Longrightarrow> split_nl (l @ NL # s) = l # split_nl s"
  by (induction l) (auto split: list.splits)

lemma split_nl_last: "NL \<notin> set l \<Longrightarrow> split_nl l = [l]"
  by (induction l) (auto split: list.splits)

lemma split_nl_no_NL: "l \<in> set (split_nl s) \<Longrightarrow> NL \<notin> set l"
proof (induction s arbitrary: l)
  case Nil
  then show ?case by simp
next
  case (Cons c s)
  show ?case
  proof (cases "c = NL")
    case True
    with Cons show ?thesis by auto
  next
    case False
    obtain l' ls where sp: "split_nl s = l' # ls"
      using split_nl_nonempty [of s] by (cases "split_nl s") auto
    with Cons.prems False have "l = c # l' \<or> l \<in> set ls"
      by auto
    with Cons.IH sp False show ?thesis
      by auto
  qed
qed

lemma join_nl_Cons: "join_nl (l # ls) = l @ (if ls = [] then [] else NL # join_nl ls)"
  by (cases ls) auto

lemma join_split: "join_nl (split_nl s) = s"
proof (induction s)
  case Nil
  show ?case by simp
next
  case (Cons c s)
  obtain l ls where sp: "split_nl s = l # ls"
    using split_nl_nonempty [of s] by (cases "split_nl s") auto
  show ?case
  proof (cases "c = NL")
    case True
    with Cons sp show ?thesis by simp
  next
    case False
    with Cons sp show ?thesis
      by (simp add: join_nl_Cons)
  qed
qed

subsection \<open>Splitting at blank lines\<close>

lemma re_split_blank_nonempty: "re_split_blank s \<noteq> []"
  by (induction s rule: re_split_blank.induct)
     (auto simp: re_split_blank.simps(2) split: option.splits list.splits)

lemma re_split_blank_no_match:
  "match_blank (c # cs) = None \<Longrightarrow>
   re_split_blank (c # cs) = (c # hd (re_split_blank cs)) # tl (re_split_blank cs)"
  using re_split_blank_nonempty [of cs]
  by (cases "re_split_blank cs") (auto simp: re_split_blank.simps(2))

lemma match_blank_not_NL: "c \<noteq> NL \<Longrightarrow> match_blank (c # cs) = None"
  by (simp add: match_blank_def)

lemma re_split_blank_line:
  "NL \<notin> set l \<Longrightarrow>
   re_split_blank (l @ s) = (l @ hd (re_split_blank s)) # tl (re_split_blank s)"
proof (induction l)
  case Nil
  then show ?case using re_split_blank_nonempty [of s] by simp
next
  case (Cons c l)
  then have "match_blank (c # l @ s) = None"
    by (simp add: match_blank_not_NL)
  then have "re_split_blank (c # l @ s)
      = (c # hd (re_split_blank (l @ s))) # tl (re_split_blank (l @ s))"
    by (rule re_split_blank_no_match)
  with Cons show ?case by simp
qed

lemma match_blank_before_line:
  assumes "NL \<notin> set l" "\<exists>x\<in>set l. \<not> is_space x"
  shows "match_blank (NL # l @ s) = None"
proof -
  obtain x where x: "x \<in> set l" "\<not> is_space x"
    using assms(2) by blast
  then have "takeWhile is_space (l @ s) = takeWhile is_space l"
    by (rule takeWhile_append1)
  moreover have "NL \<notin> set (takeWhile is_space l)"
    using assms(1) by (auto dest: set_takeWhileD)
  ultimately show ?thesis
    by (simp add: match_blank_def)
qed

lemma match_blank_separator:
  assumes "r = [] \<or> \<not> is_space (hd r)"
  shows "match_blank (NL # NL # r) = Some r"
proof -
  have "takeWhile is_space r = []"
    using assms by (cases r) auto
  then show ?thesis
    by (simp add: match_blank_def is_space_NL)
qed

lemma re_split_blank_lines:
  assumes "ls \<noteq> []" "\<forall>l\<in>set ls. NL \<notin> set l \<and> (\<exists>x\<in>set l. \<not> is_space x)"
  shows "re_split_blank (join_nl ls @ s)
           = (join_nl ls @ hd (re_split_blank s)) # tl (re_split_blank s)"
  using assms
proof (induction ls rule: join_nl.induct)
  case 1
  then show ?case by simp
next
  case (2 l)
  then show ?case by (simp add: re_split_blank_line)
next
  case (3 l l' ls)
  let ?rest = "join_nl (l' # ls) @ s"
  have IH: "re_split_blank ?rest
      = (join_nl (l' # ls) @ hd (re_split_blank s)) # tl (re_split_blank s)"
    using 3 by simp
  have l': "NL \<notin> set l'" "\<exists>x\<in>set l'. \<not> is_space x" and l: "NL \<notin> set l"
    using 3(3) by auto
  have "?rest = l' @ ((if ls = [] then [] else NL # join_nl ls) @ s)"
    by (simp add: join_nl_Cons)
  then have "match_blank (NL # ?rest) = None"
    using match_blank_before_line [OF l'] by simp
  then have "re_split_blank (NL # ?rest)
      = (NL # hd (re_split_blank ?rest)) # tl (re_split_blank ?rest)"
    by (rule re_split_blank_no_match)
  with IH have "re_split_blank (NL # ?rest)
      = (NL # join_nl (l' # ls) @ hd (re_split_blank s)) # tl (re_split_blank s)"
    by simp
  moreover have "re_split_blank (l @ NL # ?rest)
      = (l @ hd (re_split_blank (NL # ?rest))) # tl (re_split_blank (NL # ?rest))"
    using l by (rule re_split_blank_line)
  ultimately show ?case
    by simp
qed

lemma re_split_blank_separator:
  "r = [] \<or> \<not> is_space (hd r) \<Longrightarrow> re_split_blank (NL # NL # r) = [] # re_split_blank r"
  by (simp add: re_split_blank.simps(2) match_blank_separator)

subsection \<open>Timestamps\<close>

lemma time_pattern_set: "k \<in> set time_pattern \<Longrightarrow> k = Digit \<or> k = Lit 58 \<or> k = Lit 44"
  by (auto simp: time_pattern_def)

lemma time_chars:
  assumes "list_all2 in_class t time_pattern" "c \<in> set t"
  shows "\<not> is_space c"
proof -
  from assms(2) obtain i where i: "i < length t" "t ! i = c"
    by (auto simp: in_set_conv_nth)
  have len: "length t = length time_pattern"
    using assms(1) by (rule list_all2_lengthD)
  have "in_class (t ! i) (time_pattern ! i)"
    using assms(1) i(1) by (rule list_all2_nthD)
  moreover have "time_pattern ! i \<in> set time_pattern"
    using i(1) len by simp
  then have "time_pattern ! i = Digit \<or> time_pattern ! i = Lit 58 \<or> time_pattern ! i = Lit 44"
    by (rule time_pattern_set)
  ultimately have "is_digit c \<or> c = 58 \<or> c = 44"
    using i(2) by auto
  moreover have "\<not> is_space 58" "\<not> is_space 44"
    by (simp_all add: is_space_def)
  ultimately show ?thesis
    using digit_not_space [of c] by auto
qed

lemma time_length: "list_all2 in_class t time_pattern \<Longrightarrow> length t = 12"
  by (drule list_all2_lengthD) (simp add: time_pattern_def)

lemma arrow_chars: "lit '' --> '' = [32, 45, 45, 62, 32]"
  by (simp add: lit_def)

lemma timestamp_match:
  assumes "list_all2 in_class a time_pattern" "list_all2 in_class b time_pattern"
  shows "re_match timestamp_pattern (a @ lit '' --> '' @ b)"
    and "take 12 (a @ lit '' --> '' @ b) = a"
    and "take 12 (drop 17 (a @ lit '' --> '' @ b)) = b"
proof -
  have la: "length a = 12" and lb: "length b = 12"
    using assms by (auto dest: time_length)
  have "list_all2 in_class (lit '' --> '') (map Lit (lit '' --> ''))"
    by (simp add: arrow_chars)
  with assms have "list_all2 in_class (a @ lit '' --> '' @ b) timestamp_pattern"
    unfolding timestamp_pattern_def by (intro list_all2_appendI)
  moreover have "length timestamp_pattern = 29"
    by (simp add: timestamp_pattern_def time_pattern_def arrow_chars)
  moreover have "length (a @ lit '' --> '' @ b) = 29"
    using la lb by (simp add: arrow_chars)
  ultimately show "re_match timestamp_pattern (a @ lit '' --> '' @ b)"
    by (simp add: re_match_def)
  show "take 12 (a @ lit '' --> '' @ b) = a"
    using la by simp
  show "take 12 (drop 17 (a @ lit '' --> '' @ b)) = b"
    using la lb by (simp add: arrow_chars)
qed

lemma timestamp_line:
  assumes "list_all2 in_class a time_pattern" "list_all2 in_class b time_pattern"
  shows "NL \<notin> set (a @ lit '' --> '' @ b)"
    and "\<exists>x\<in>set (a @ lit '' --> '' @ b). \<not> is_space x"
proof -
  have "\<not> is_space c" if "c \<in> set a \<or> c \<in> set b" for c
    using that assms time_chars by blast
  then have "NL \<notin> set a" "NL \<notin> set b"
    using is_space_NL by blast+
  then show "NL \<notin> set (a @ lit '' --> '' @ b)"
    by (simp add: arrow_chars)
  have "a \<noteq> []"
    using time_length [OF assms(1)] by auto
  then obtain x where "x \<in> set a"
    by (cases a) auto
  then show "\<exists>x\<in>set (a @ lit '' --> '' @ b). \<not> is_space x"
    using time_chars [OF assms(1)] by auto
qed

subsection \<open>Blocks\<close>

lemma block_str_lines: "block_str e = join_nl (block_lines e)"
  using split_nl_nonempty [of "text_field e"]
  by (simp add: block_str_def block_lines_def join_nl_Cons join_split)

lemma block_lines_ok:
  assumes "wf_entry e" "l \<in> set (block_lines e)"
  shows "NL \<notin> set l \<and> (\<exists>x\<in>set l. \<not> is_space x)"
proof -
  have ts: "list_all2 in_class (start_time e) time_pattern"
    "list_all2 in_class (end_time e) time_pattern"
    using assms(1) by (simp_all add: wf_entry_def)
  from assms(2) consider "l = decimal (number e)"
    | "l = start_time e @ lit '' --> '' @ end_time e"
    | "l \<in> set (split_nl (text_field e))"
    by (auto simp: block_lines_def)
  then show ?thesis
  proof cases
    case 1
    obtain x where "x \<in> set (decimal (number e))"
      using decimal_nonempty [of "number e"] by (cases "decimal (number e)") auto
    with 1 show ?thesis
      using decimal_no_NL decimal_no_space by blast
  next
    case 2
    with timestamp_line [OF ts] show ?thesis by simp
  next
    case 3
    then have "strip l \<noteq> []"
      using assms(1) by (simp add: wf_entry_def list_all_iff)
    with 3 show ?thesis
      using split_nl_no_NL strip_nonempty_has_char by blast
  qed
qed

lemma block_str_ends:
  assumes "wf_entry e"
  shows "block_str e \<noteq> []" "\<not> is_space (hd (block_str e))" "\<not> is_space (last (block_str e))"
proof -
  obtain d ds where d: "decimal (number e) = d # ds"
    using decimal_nonempty [of "number e"] by (cases "decimal (number e)") auto
  then have "\<not> is_space d"
    using decimal_no_space [of d "number e"] by simp
  then show "block_str e \<noteq> []" "\<not> is_space (hd (block_str e))"
    by (simp_all add: block_str_def d)
  have "text_field e \<noteq> []" "\<not> is_space (last (text_field e))"
    using assms by (simp_all add: wf_entry_def)
  then show "\<not> is_space (last (block_str e))"
    by (simp add: block_str_def)
qed

lemma doc_ends:
  assumes "es \<noteq> []" "\<forall>e\<in>set es. wf_entry e"
  shows "doc es \<noteq> [] \<and> \<not> is_space (hd (doc es)) \<and> \<not> is_space (last (doc es))"
  using assms
proof (induction es rule: doc.induct)
  case 1
  then show ?case by simp
next
  case (2 e)
  then show ?case using block_str_ends [of e] by simp
next
  case (3 e e' es)
  then have "doc (e' # es) \<noteq> []" "\<not> is_space (last (doc (e' # es)))"
    by simp_all
  moreover have "block_str e \<noteq> []" "\<not> is_space (hd (block_str e))"
    using 3(3) block_str_ends [of e] by simp_all
  ultimately show ?case
    by simp
qed

lemma re_split_blank_doc:
  assumes "es \<noteq> []" "\<forall>e\<in>set es. wf_entry e"
  shows "re_split_blank (doc es) = map block_str es"
  using assms
proof (induction es rule: doc.induct)
  case 1
  then show ?case by simp
next
  case (2 e)
  have "re_split_blank (join_nl (block_lines e) @ [])
      = (join_nl (block_lines e) @ hd (re_split_blank [])) # tl (re_split_blank [])"
    using 2 block_lines_ok [of e]
    by (intro re_split_blank_lines) (auto simp: block_lines_def)
  then show ?case
    by (simp add: block_str_lines)
next
  case (3 e e' es)
  let ?r = "doc (e' # es)"
  have r: "?r = [] \<or> \<not> is_space (hd ?r)"
    using doc_ends [of "e' # es"] 3(3) by simp
  have "re_split_blank (join_nl (block_lines e) @ NL # NL # ?r)
      = (join_nl (block_lines e) @ hd (re_split_blank (NL # NL # ?r)))
        # tl (re_split_blank (NL # NL # ?r))"
    using 3(3) block_lines_ok [of e]
    by (intro re_split_blank_lines) (auto simp: block_lines_def)
  also have "re_split_blank (NL # NL # ?r) = [] # re_split_blank ?r"
    using r by (rule re_split_blank_separator)
  finally show ?case
    using 3 by (simp add: block_str_lines)
qed

lemma parse_block_block_str:
  assumes "wf_entry e"
  shows "parse_block (block_str e) = Some e"
proof -
  let ?num = "decimal (number e)"
  let ?ts = "start_time e @ lit '' --> '' @ end_time e"
  have ts: "list_all2 in_class (start_time e) time_pattern"
    "list_all2 in_class (end_time e) time_pattern"
    using assms by (simp_all add: wf_entry_def)
  have st: "strip (block_str e) = block_str e"
    using block_str_ends [OF assms] by (intro strip_id)
  have "split_nl (block_str e) = ?num # split_nl (?ts @ NL # text_field e)"
    unfolding block_str_def using decimal_no_NL by (intro split_nl_line)
  also have "split_nl (?ts @ NL # text_field e) = ?ts # split_nl (text_field e)"
    using timestamp_line(1) [OF ts] by (intro split_nl_line)
  finally have lines: "split_nl (block_str e) = ?num # ?ts # split_nl (text_field e)" .
  have len: "\<not> length (split_nl (block_str e)) < 3"
    using split_nl_nonempty [of "text_field e"] lines
    by (cases "split_nl (text_field e)") auto
  obtain d ds where d: "?num = d # ds"
    using decimal_nonempty [of "number e"] by (cases ?num) auto
  have "\<not> is_space (hd ?num)" "\<not> is_space (last ?num)"
    using decimal_no_space [of _ "number e"] decimal_nonempty [of "number e"]
    by (auto simp: d)
  then have "strip ?num = ?num"
    using decimal_nonempty by (intro strip_id)
  moreover have "str_int (number e) = Some ?num"
    using assms by (simp add: wf_entry_def str_int_def)
  ultimately have num: "py_int (strip ?num) = Some (number e)"
    using py_int_decimal by simp
  have ne: "block_str e \<noteq> []"
    using block_str_ends(1) [OF assms] .
  show ?thesis
    using st ne lines len num timestamp_match [OF ts]
    by (simp add: parse_block_def join_split)
qed

subsection \<open>Serializing and parsing\<close>

lemma format_lines_wf:
  "\<forall>e\<in>set es. wf_entry e \<Longrightarrow>
   format_lines es
     = Some (concat (map (\<lambda>e. [decimal (number e),
          start_time e @ lit '' --> '' @ end_time e, text_field e, []]) es))"
  by (induction es) (auto simp: wf_entry_def str_int_def)

lemma join_entry:
  "join_nl (a # b # c # [] # rest) = a @ NL # b @ NL # c @ NL # (if rest = [] then [] else NL # join_nl rest)"
  by (cases rest) auto

lemma format_srt_doc:
  assumes "es \<noteq> []" "\<forall>e\<in>set es. wf_entry e"
  shows "format_srt es = Inr (doc es @ [NL])"
proof -
  have "join_nl (concat (map (\<lambda>e. [decimal (number e),
          start_time e @ lit '' --> '' @ end_time e, text_field e, []]) es)) = doc es @ [NL]"
    using assms(1)
  proof (induction es rule: doc.induct)
    case 1
    then show ?case by simp
  next
    case (2 e)
    show ?case by (simp add: block_str_def)
  next
    case (3 e e' es)
    then show ?case
      by (simp add: join_entry block_str_def del: join_nl.simps)
  qed
  with format_lines_wf [OF assms(2)] show ?thesis
    by (simp add: format_srt_def)
qed

lemma parse_srt_doc:
  assumes "es \<noteq> []" "\<forall>e\<in>set es. wf_entry e"
  shows "parse_srt (doc es @ [NL]) = es" "parse_srt (doc es) = es"
proof -
  have ends: "doc es \<noteq> []" "\<not> is_space (hd (doc es))" "\<not> is_space (last (doc es))"
    using doc_ends [OF assms] by simp_all
  have s1: "strip (doc es @ [NL]) = doc es"
    using ends by (rule strip_trailing_NL)
  have s2: "strip (doc es) = doc es"
    using ends by (rule strip_id)
  have "List.map_filter parse_block (map block_str es) = es"
    using assms(2) by (induction es) (auto simp: List.map_filter_simps parse_block_block_str)
  then show "parse_srt (doc es @ [NL]) = es" "parse_srt (doc es) = es"
    using re_split_blank_doc [OF assms] by (simp_all add: parse_srt_def s1 s2)
qed

lemma parse_format_roundtrip:
  assumes "\<forall>e\<in>set es. wf_entry e"
  shows "\<exists>x. format_srt es = Inr x \<and> parse_srt x = es"
proof (cases "es = []")
  case True
  then show ?thesis
    by (simp add: format_srt_def parse_srt_def strip_def parse_block_def List.map_filter_simps)
next
  case False
  with assms show ?thesis
    by (simp add: format_srt_doc parse_srt_doc)
qed

lemma nat_digits_long: "10 ^ k \<le> n \<Longrightarrow> k < length (nat_digits n)"
proof (induction k arbitrary: n)
  case 0
  then show ?case using nat_digits_nonempty [of n] by (cases "nat_digits n") auto
next
  case (Suc k)
  then have le: "10 ^ k * 10 \<le> n" by simp
  have "(1::nat) \<le> 10 ^ k" by simp
  with le have "\<not> n < 10" by linarith
  moreover from le have "10 ^ k \<le> n div 10"
    by (simp add: less_eq_div_iff_mult_less_eq)
  ultimately show ?case
    using Suc.IH [of "n div 10"] by (simp add: nat_digits.simps [of n])
qed

lemma str_int_power:
  assumes "max_str_digits \<le> k"
  shows "str_int (10 ^ k) = None"
proof -
  have n: "nat ((10::int) ^ k) = 10 ^ k"
    by (simp add: nat_power_eq)
  have "k < length (nat_digits (10 ^ k))"
    by (rule nat_digits_long) simp
  with assms have "max_str_digits < length (nat_digits (nat ((10::int) ^ k)))"
    unfolding n by simp
  then show ?thesis
    by (simp add: str_int_def)
qed

lemma format_srt_unprintable:
  "str_int (number e) = None \<Longrightarrow> format_srt (e # es) = Inl ValueError"
  by (simp add: format_srt_def)

lemma number_entry: "number (entry n t) = n"
  by (simp add: entry_def)

lemmas srt_simps =
  lit_def entry_def wf_entry_def time_pattern_def is_digit_ascii is_space_ascii strip_def
  max_str_digits_def nat_digits.simps format_srt_def str_int_def decimal_def
  block_str_def

lemmas parse_simps =
  parse_srt_def strip_def is_space_ascii re_split_blank.simps match_blank_def
  parse_block_def py_int_def py_nat_def max_str_digits_def digit_value_ascii re_match_def
  timestamp_pattern_def time_pattern_def is_digit_ascii lit_def List.map_filter_simps Let_def

lemma parse_padded_number:
  "parse_srt (lit ''01'' @ [NL] @ lit ''00:00:01,000 --> 00:00:02,000'' @ [NL] @ lit ''hi'' @ [NL])
     = [entry 1 ''hi'']"
  by (simp add: parse_simps entry_def)

subsection \<open>The claims on the round trips\<close>

text \<open>
  C10 (as amended). For every sequence of entries in which every number is an integer
  whose decimal numeral has at most 4300 digits, every start and end time has the form
  \<open>HH:MM:SS,mmm\<close>, and every text is not empty, has no line that is empty or made of
  whitespace only, and does not end with a whitespace character, the serialization
  returns and parsing the serialized form gives back the sequence.
\<close>

theorem parse_format_entries:
  assumes "\<forall>e\<in>set es. wf_entry e"
  shows "\<exists>x. format_srt es = Inr x \<and> parse_srt x = es"
  using assms by (rule parse_format_roundtrip)

text \<open>
  Two entries, the second with a negative number and a text of two lines that begins
  with a space.
\<close>

theorem parse_format_entries_witness:
  "list_all wf_entry [entry 12 ''Hello'',
       (entry (- 3) ''x'')\<lparr>text_field := lit '' a'' @ [NL] @ lit ''b''\<rparr>]
   \<and> (\<exists>x. format_srt [entry 12 ''Hello'',
             (entry (- 3) ''x'')\<lparr>text_field := lit '' a'' @ [NL] @ lit ''b''\<rparr>] = Inr x
        \<and> parse_srt x = [entry 12 ''Hello'',
             (entry (- 3) ''x'')\<lparr>text_field := lit '' a'' @ [NL] @ lit ''b''\<rparr>])
   \<and> format_srt [entry 12 ''Hello'',
         (entry (- 3) ''x'')\<lparr>text_field := lit '' a'' @ [NL] @ lit ''b''\<rparr>]
       = Inr (lit ''12'' @ [NL] @ lit ''00:00:01,000 --> 00:00:02,000'' @ [NL] @ lit ''Hello''
              @ [NL, NL] @ lit ''-3'' @ [NL] @ lit ''00:00:01,000 --> 00:00:02,000'' @ [NL]
              @ lit '' a'' @ [NL] @ lit ''b'' @ [NL])"
proof -
  let ?es = "[entry 12 ''Hello'',
       (entry (- 3) ''x'')\<lparr>text_field := lit '' a'' @ [NL] @ lit ''b''\<rparr>]"
  have h: "list_all wf_entry ?es"
    by (simp add: srt_simps)
  then have h': "\<forall>e\<in>set ?es. wf_entry e"
    by (simp only: list_all_iff)
  have v: "format_srt ?es
       = Inr (lit ''12'' @ [NL] @ lit ''00:00:01,000 --> 00:00:02,000'' @ [NL] @ lit ''Hello''
              @ [NL, NL] @ lit ''-3'' @ [NL] @ lit ''00:00:01,000 --> 00:00:02,000'' @ [NL]
              @ lit '' a'' @ [NL] @ lit ''b'' @ [NL])"
    by (simp add: srt_simps)
  from parse_format_entries [OF h'] h v show ?thesis
    by simp
qed

text \<open>
  The claim fails for a text that ends with a space: the entry meets the conditions of
  the claim, and parsing its serialized form gives the text without the space. It
  fails too for a number of 4301 digits, which \<open>format_srt\<close> cannot serialize.
\<close>

theorem parse_format_trailing_space_counterexample:
  "list_all2 in_class (start_time (entry 1 ''a '')) time_pattern
   \<and> list_all2 in_class (end_time (entry 1 ''a '')) time_pattern
   \<and> text_field (entry 1 ''a '') \<noteq> []
   \<and> list_all (\<lambda>line. strip line \<noteq> []) (split_nl (text_field (entry 1 ''a '')))
   \<and> format_srt [entry 1 ''a '']
       = Inr (lit ''1'' @ [NL] @ lit ''00:00:01,000 --> 00:00:02,000'' @ [NL] @ lit ''a '' @ [NL])
   \<and> parse_srt (lit ''1'' @ [NL] @ lit ''00:00:01,000 --> 00:00:02,000'' @ [NL] @ lit ''a '' @ [NL])
       = [entry 1 ''a'']
   \<and> [entry 1 ''a''] \<noteq> [entry 1 ''a '']
   \<and> format_srt [entry (10 ^ 4300) ''a''] = Inl ValueError"
proof -
  let ?x = "lit ''1'' @ [NL] @ lit ''00:00:01,000 --> 00:00:02,000'' @ [NL] @ lit ''a '' @ [NL]"
  have wf: "\<forall>e\<in>set [entry 1 ''a'']. wf_entry e"
    by (simp add: srt_simps)
  have "strip ?x = strip (doc [entry 1 ''a''])"
    by (simp add: srt_simps)
  then have "parse_srt ?x = parse_srt (doc [entry 1 ''a''])"
    by (simp add: parse_srt_def)
  also have "\<dots> = [entry 1 ''a'']"
    using wf by (intro parse_srt_doc(2)) simp_all
  finally have p: "parse_srt ?x = [entry 1 ''a'']" .
  have f: "format_srt [entry 1 ''a ''] = Inr ?x"
    by (simp add: srt_simps)
  have hyp: "list_all2 in_class (start_time (entry 1 ''a '')) time_pattern
   \<and> list_all2 in_class (end_time (entry 1 ''a '')) time_pattern
   \<and> text_field (entry 1 ''a '') \<noteq> []
   \<and> list_all (\<lambda>line. strip line \<noteq> []) (split_nl (text_field (entry 1 ''a '')))"
    by (simp add: srt_simps)
  have ne: "[entry 1 ''a''] \<noteq> [entry 1 ''a '']"
    by (simp add: entry_def lit_def)
  have "max_str_digits \<le> 4300"
    by (simp add: max_str_digits_def)
  then have "str_int (10 ^ 4300) = None"
    by (rule str_int_power)
  then have "str_int (number (entry (10 ^ 4300) ''a'')) = None"
    by (simp only: number_entry)
  then have big: "format_srt [entry (10 ^ 4300) ''a''] = Inl ValueError"
    by (rule format_srt_unprintable)
  from hyp f p ne big show ?thesis
    by blast
qed

text \<open>
  C5 (as amended). For every document \<open>x\<close> that is the serialization of a sequence of
  entries as in C10 (every number line is the decimal numeral of the number, every
  timestamp line is \<open>start --> end\<close>, no text ends with whitespace, one empty line
  stands between two blocks and a newline ends the last text line), serializing the
  parse result gives back \<open>x\<close>.
\<close>

theorem format_parse_canonical:
  assumes "\<forall>e\<in>set es. wf_entry e" and "format_srt es = Inr x"
  shows "format_srt (parse_srt x) = Inr x"
proof -
  from parse_format_roundtrip [OF assms(1)] assms(2) have "parse_srt x = es"
    by auto
  with assms(2) show ?thesis
    by simp
qed

text \<open>
  A document of two blocks in this form.
\<close>

theorem format_parse_canonical_witness:
  "list_all wf_entry [entry 1 ''Hello'', entry 2 ''World'']
   \<and> format_srt [entry 1 ''Hello'', entry 2 ''World'']
       = Inr (lit ''1'' @ [NL] @ lit ''00:00:01,000 --> 00:00:02,000'' @ [NL] @ lit ''Hello''
              @ [NL, NL] @ lit ''2'' @ [NL] @ lit ''00:00:01,000 --> 00:00:02,000'' @ [NL]
              @ lit ''World'' @ [NL])
   \<and> format_srt (parse_srt
         (lit ''1'' @ [NL] @ lit ''00:00:01,000 --> 00:00:02,000'' @ [NL] @ lit ''Hello''
              @ [NL, NL] @ lit ''2'' @ [NL] @ lit ''00:00:01,000 --> 00:00:02,000'' @ [NL]
              @ lit ''World'' @ [NL]))
       = Inr (lit ''1'' @ [NL] @ lit ''00:00:01,000 --> 00:00:02,000'' @ [NL] @ lit ''Hello''
              @ [NL, NL] @ lit ''2'' @ [NL] @ lit ''00:00:01,000 --> 00:00:02,000'' @ [NL]
              @ lit ''World'' @ [NL])"
proof -
  let ?es = "[entry 1 ''Hello'', entry 2 ''World'']"
  have h: "list_all wf_entry ?es"
    by (simp add: srt_simps)
  then have h': "\<forall>e\<in>set ?es. wf_entry e"
    by (simp only: list_all_iff)
  have v: "format_srt ?es
       = Inr (lit ''1'' @ [NL] @ lit ''00:00:01,000 --> 00:00:02,000'' @ [NL] @ lit ''Hello''
              @ [NL, NL] @ lit ''2'' @ [NL] @ lit ''00:00:01,000 --> 00:00:02,000'' @ [NL]
              @ lit ''World'' @ [NL])"
    by (simp add: srt_simps)
  from format_parse_canonical [OF h' v] h v show ?thesis
    by simp
qed

text \<open>
  Two documents in the grammar of the specification that do not come back: one block
  without a newline at the end, to which \<open>format_srt\<close> adds the newline, and one block
  whose number line is \<open>01\<close>, which comes back as \<open>1\<close>.
\<close>

theorem format_parse_counterexample:
  "format_srt (parse_srt
      (lit ''1'' @ [NL] @ lit ''00:00:01,000 --> 00:00:02,000'' @ [NL] @ lit ''hi''))
     = Inr (lit ''1'' @ [NL] @ lit ''00:00:01,000 --> 00:00:02,000'' @ [NL] @ lit ''hi'' @ [NL])
   \<and> lit ''1'' @ [NL] @ lit ''00:00:01,000 --> 00:00:02,000'' @ [NL] @ lit ''hi'' @ [NL]
       \<noteq> lit ''1'' @ [NL] @ lit ''00:00:01,000 --> 00:00:02,000'' @ [NL] @ lit ''hi''
   \<and> format_srt (parse_srt
      (lit ''01'' @ [NL] @ lit ''00:00:01,000 --> 00:00:02,000'' @ [NL] @ lit ''hi'' @ [NL]))
     = Inr (lit ''1'' @ [NL] @ lit ''00:00:01,000 --> 00:00:02,000'' @ [NL] @ lit ''hi'' @ [NL])
   \<and> lit ''1'' @ [NL] @ lit ''00:00:01,000 --> 00:00:02,000'' @ [NL] @ lit ''hi'' @ [NL]
       \<noteq> lit ''01'' @ [NL] @ lit ''00:00:01,000 --> 00:00:02,000'' @ [NL] @ lit ''hi'' @ [NL]"
proof -
  let ?x = "lit ''1'' @ [NL] @ lit ''00:00:01,000 --> 00:00:02,000'' @ [NL] @ lit ''hi''"
  have wf: "\<forall>e\<in>set [entry 1 ''hi'']. wf_entry e"
    by (simp add: srt_simps)
  have x: "?x = doc [entry 1 ''hi'']"
    by (simp add: srt_simps)
  have "parse_srt ?x = [entry 1 ''hi'']"
    unfolding x using wf by (intro parse_srt_doc(2)) simp_all
  moreover have f: "format_srt [entry 1 ''hi''] = Inr (?x @ [NL])"
    by (simp add: srt_simps)
  ultimately have a: "format_srt (parse_srt ?x) = Inr (?x @ [NL])"
    by simp
  have b: "format_srt (parse_srt
      (lit ''01'' @ [NL] @ lit ''00:00:01,000 --> 00:00:02,000'' @ [NL] @ lit ''hi'' @ [NL]))
     = Inr (?x @ [NL])"
    using f by (simp only: parse_padded_number)
  have c: "?x @ [NL] \<noteq> ?x"
    "lit ''1'' @ [NL] @ lit ''00:00:01,000 --> 00:00:02,000'' @ [NL] @ lit ''hi'' @ [NL]
       \<noteq> lit ''01'' @ [NL] @ lit ''00:00:01,000 --> 00:00:02,000'' @ [NL] @ lit ''hi'' @ [NL]"
    by (simp_all add: lit_def)
  from a b c show ?thesis
    by simp
qed

end
